theory Spec2Isabelle
  imports Complex_Main "HOL-Library.Word"
begin

unbundle bit_operations_syntax

section \<open>JavaScript numbers\<close>

text \<open>
  A JavaScript Number is an IEEE-754 double: a finite value, \<open>NaN\<close> or one of the two
  infinities. A finite double is modelled by the real number it denotes. The operations
  of \<open>Int64.js\<close> on finite numbers (\<open>Math.abs\<close>, \<open>% VAL32\<close>, \<open>/ VAL32\<close>, the
  comparisons and the conversions of the bit operators) are exact on doubles; the one
  exception is \<open>/ VAL32\<close> on a number so small that the quotient underflows, where the
  double quotient and the real quotient are both below 1 in magnitude and so agree under
  the comparison with \<open>VAL32\<close> and under \<open>| 0\<close>. The two places where a double
  operation rounds (\<open>x += ...\<close> in \<open>valueOf\<close>, and \<open>parseInt\<close> of a long digit string)
  round explicitly, with \<open>round53\<close> below. The model does not distinguish \<open>-0\<close> from
  \<open>0\<close> (they are equal under \<open>===\<close>).
\<close>

datatype jsnum = Num real | NaN | PosInf | NegInf

definition VAL32 :: real where
  "VAL32 = 0x100000000"

definition MAX_INT :: int where
  "MAX_INT = 2 ^ 53"

text \<open>The relational operator \<open>a < b\<close> (\<open>a > b\<close> is \<open>js_less b a\<close>): false when either is NaN.\<close>

fun js_less :: "jsnum \<Rightarrow> jsnum \<Rightarrow> bool" where
  "js_less (Num a) (Num b) = (a < b)"
| "js_less (Num a) PosInf = True"
| "js_less NegInf (Num b) = True"
| "js_less NegInf PosInf = True"
| "js_less _ _ = False"

fun js_abs :: "jsnum \<Rightarrow> jsnum" where
  "js_abs (Num a) = Num \<bar>a\<bar>"
| "js_abs NaN = NaN"
| "js_abs PosInf = PosInf"
| "js_abs NegInf = PosInf"

text \<open>Rounding towards zero, the integer part that \<open>ToInt32\<close>, \<open>ToUint32\<close> and \<open>%\<close> use.\<close>

definition trunc :: "real \<Rightarrow> int" where
  "trunc a = (if a < 0 then \<lceil>a\<rceil> else \<lfloor>a\<rfloor>)"

text \<open>\<open>a % VAL32\<close>: the remainder has the sign of the dividend; NaN for NaN and infinities.\<close>

fun rem_VAL32 :: "jsnum \<Rightarrow> jsnum" where
  "rem_VAL32 (Num a) = Num (a - VAL32 * of_int (trunc (a / VAL32)))"
| "rem_VAL32 _ = NaN"

text \<open>\<open>a / VAL32\<close>.\<close>

fun div_VAL32 :: "jsnum \<Rightarrow> jsnum" where
  "div_VAL32 (Num a) = Num (a / VAL32)"
| "div_VAL32 v = v"

text \<open>
  The conversions the bit operators apply to their operands: NaN and the infinities
  become 0, a finite number is truncated and taken modulo \<open>2^32\<close>, read as unsigned
  (\<open>ToUint32\<close>, for \<open>>>>\<close>) or as two's complement (\<open>ToInt32\<close>, for \<open>&\<close>, \<open>|\<close>, \<open>^\<close>, \<open>>>\<close>).
\<close>

fun ToUint32 :: "jsnum \<Rightarrow> int" where
  "ToUint32 (Num a) = trunc a mod 2 ^ 32"
| "ToUint32 _ = 0"

definition ToInt32 :: "jsnum \<Rightarrow> int" where
  "ToInt32 v = (let m = ToUint32 v in if m \<ge> 2 ^ 31 then m - 2 ^ 32 else m)"

text \<open>
  Round-to-nearest, ties-to-even, of a non-negative integer to the 53 significant bits
  of a double: \<open>ulp_exp m\<close> is the number of low bits that do not fit.
\<close>

function ulp_exp :: "int \<Rightarrow> nat" where
  "ulp_exp m = (if m < 2 ^ 53 then 0 else Suc (ulp_exp (m div 2)))"
  by pat_completeness auto
termination
  by (relation "measure nat") auto

declare ulp_exp.simps [simp del]

definition round53 :: "int \<Rightarrow> int" where
  "round53 m =
     (let e = ulp_exp m; q = m div 2 ^ e; r = m mod 2 ^ e
      in if 2 * r < 2 ^ e \<or> (2 * r = 2 ^ e \<and> even q) then q * 2 ^ e else (q + 1) * 2 ^ e)"

section \<open>Strings\<close>

text \<open>
  Strings are lists of characters with codes below 256. \<open>parseInt16 s\<close> is
  \<open>parseInt(s, 16)\<close> of ECMAScript: leading white space is skipped, then an optional
  sign, then an optional \<open>0x\<close> or \<open>0X\<close>; the longest run of hexadecimal digits that
  follows is the value, NaN when the run is empty; the value is rounded to a double.
\<close>

definition is_ws :: "char \<Rightarrow> bool" where
  "is_ws c = (of_char c \<in> {9, 10, 11, 12, 13, 32, 160 :: nat})"

definition digit16 :: "char \<Rightarrow> nat option" where
  "digit16 c =
     (let k = (of_char c :: nat)
      in if 48 \<le> k \<and> k \<le> 57 then Some (k - 48)
         else if 97 \<le> k \<and> k \<le> 102 then Some (k - 87)
         else if 65 \<le> k \<and> k \<le> 70 then Some (k - 55)
         else None)"

definition is_hex :: "char \<Rightarrow> bool" where
  "is_hex c = (digit16 c \<noteq> None)"

definition hex_value :: "string \<Rightarrow> int" where
  "hex_value Z = foldl (\<lambda>a c. 16 * a + int (the (digit16 c))) 0 Z"

definition to_double :: "int \<Rightarrow> int \<Rightarrow> jsnum" where
  "to_double sign m =
     (let r = round53 m
      in if r \<ge> 2 ^ 1024 then (if sign < 0 then NegInf else PosInf)
         else Num (of_int (sign * r)))"

definition parseInt16 :: "string \<Rightarrow> jsnum" where
  "parseInt16 str =
     (let S = dropWhile is_ws str;
          sign = (if S \<noteq> [] \<and> hd S = CHR ''-'' then - 1 else 1);
          S = (if S \<noteq> [] \<and> (hd S = CHR ''+'' \<or> hd S = CHR ''-'') then tl S else S);
          S = (if take 2 S = ''0x'' \<or> take 2 S = ''0X'' then drop 2 S else S);
          Z = takeWhile is_hex S
      in if Z = [] then NaN else to_double sign (hex_value Z))"

text \<open>\<open>s.replace(/^0x/, '')\<close> and \<open>s.substr(-8)\<close>.\<close>

definition replace_0x :: "string \<Rightarrow> string" where
  "replace_0x s = (if take 2 s = ''0x'' then drop 2 s else s)"

definition substr_last8 :: "string \<Rightarrow> string" where
  "substr_last8 s = drop (length s - 8) s"

text \<open>
  The table \<open>_HEX\<close>: \<open>_HEX[i] = (i > 0xF ? '' : '0') + i.toString(16)\<close> for
  \<open>i\<close> from 0 to 255.
\<close>

definition hexchar :: "nat \<Rightarrow> char" where
  "hexchar d = ''0123456789abcdef'' ! d"

function toString16 :: "nat \<Rightarrow> string" where
  "toString16 n = (if n < 16 then [hexchar n] else toString16 (n div 16) @ [hexchar (n mod 16)])"
  by pat_completeness auto
termination
  by (relation "measure id") auto

declare toString16.simps [simp del]

definition HEX :: "nat \<Rightarrow> string" where
  "HEX i = (if i > 0xF then '''' else ''0'') @ toString16 i"

text \<open>\<open>Array.prototype.join\<close>: an undefined element is rendered as the empty string.\<close>

fun join :: "string option list \<Rightarrow> string \<Rightarrow> string" where
  "join [] sep = ''''"
| "join [x] sep = (case x of None \<Rightarrow> '''' | Some s \<Rightarrow> s)"
| "join (x # xs) sep = (case x of None \<Rightarrow> '''' | Some s \<Rightarrow> s) @ sep @ join xs sep"

section \<open>Buffers and the heap\<close>

text \<open>
  A Buffer is a byte array of fixed length. Reading an index outside it gives
  \<open>undefined\<close> (\<open>None\<close>), which the bit operators convert to 0; writing outside it has
  no effect; a written number is stored modulo 256. Buffers live in a heap and are
  referred to by their index there, so that an \<open>Int64\<close> made over a caller's Buffer
  shares it.
\<close>

type_synonym byte = "8 word"
type_synonym buffer = "byte list"
type_synonym ref = nat
type_synonym heap = "buffer list"

definition elem :: "buffer \<Rightarrow> nat \<Rightarrow> byte option" where
  "elem b i = (if i < length b then Some (b ! i) else None)"

definition int32_elem :: "buffer \<Rightarrow> nat \<Rightarrow> int" where
  "int32_elem b i = (case elem b i of None \<Rightarrow> 0 | Some w \<Rightarrow> uint w)"

definition store :: "buffer \<Rightarrow> nat \<Rightarrow> int \<Rightarrow> buffer" where
  "store b i v = b[i := word_of_int v]"

text \<open>\<open>new Buffer(n)\<close>: \<open>n\<close> bytes of whatever the memory \<open>mem\<close> held.\<close>

definition new_Buffer :: "(nat \<Rightarrow> byte) \<Rightarrow> nat \<Rightarrow> buffer" where
  "new_Buffer mem n = map mem [0..<n]"

section \<open>Int64\<close>

record int64 =
  buffer :: ref
  offset :: nat

datatype error = RangeError | Error

text \<open>
  The documented ways to call \<open>setValue\<close> (and the constructor, apart from the Buffer
  form): one number, one string, one argument of another type, or two numbers.
\<close>

datatype arg = ANumber jsnum | AString string | AOther | ARaw jsnum jsnum

text \<open>
  \<open>_2scomp\<close>: \<open>for (var i = o + 7; i >= o; i--)\<close> with the body
  \<open>v = (b[i] ^ 0xff) + carry; b[i] = v & 0xff; carry = v >> 8\<close>.
\<close>

definition scomp_step :: "nat \<Rightarrow> buffer \<times> int \<Rightarrow> buffer \<times> int" where
  "scomp_step i = (\<lambda>(b, carry).
     let v = (int32_elem b i XOR 0xff) + carry
     in (store b i (v AND 0xff), drop_bit 8 v))"

definition scomp_buffer :: "nat \<Rightarrow> buffer \<Rightarrow> buffer" where
  "scomp_buffer o' b = fst (fold scomp_step (rev [o'..<o' + 8]) (b, 1))"

definition Int64_2scomp :: "int64 \<Rightarrow> heap \<Rightarrow> heap" where
  "Int64_2scomp this h = h[buffer this := scomp_buffer (offset this) (h ! buffer this)]"

text \<open>
  The first half of \<open>setValue\<close>: from the arguments to \<open>negate\<close>, \<open>hi\<close> and \<open>lo\<close>, or
  the error thrown.
\<close>

fun decode_args :: "arg \<Rightarrow> error + (bool \<times> jsnum \<times> jsnum)" where
  "decode_args (ANumber n) =
     (let negate = js_less n (Num 0);
          hi = js_abs n;
          lo = rem_VAL32 hi;
          hi = div_VAL32 hi
      in if js_less (Num VAL32) hi then Inl RangeError
         else Inr (negate, Num (of_int (ToInt32 hi OR 0)), lo))"
| "decode_args (AString s) =
     (let hi = replace_0x s;
          lo = substr_last8 hi;
          hi = (if length hi > 8 then take (length hi - 8) hi else '''')
      in Inr (False, parseInt16 hi, parseInt16 lo))"
| "decode_args AOther = Inl Error"
| "decode_args (ARaw hi lo) = Inr (False, hi, lo)"

text \<open>
  The second half: \<open>for (var i = 7; i >= 0; i--)\<close> with the body
  \<open>b[o+i] = lo & 0xff; lo = i == 4 ? hi : lo >>> 8\<close>, then \<open>_2scomp\<close> if \<open>negate\<close>.
\<close>

definition copy_step :: "nat \<Rightarrow> jsnum \<Rightarrow> nat \<Rightarrow> buffer \<times> jsnum \<Rightarrow> buffer \<times> jsnum" where
  "copy_step o' hi i = (\<lambda>(b, lo).
     (store b (o' + i) (ToInt32 lo AND 0xff),
      if i = 4 then hi else Num (of_int (drop_bit 8 (ToUint32 lo)))))"

definition copy_bytes :: "nat \<Rightarrow> jsnum \<Rightarrow> jsnum \<Rightarrow> buffer \<Rightarrow> buffer" where
  "copy_bytes o' hi lo b = fst (fold (copy_step o' hi) (rev [0..<8]) (b, lo))"

definition setValue :: "int64 \<Rightarrow> arg \<Rightarrow> heap \<Rightarrow> error + heap" where
  "setValue this a h =
     (case decode_args a of
        Inl e \<Rightarrow> Inl e
      | Inr (negate, hi, lo) \<Rightarrow>
          let h' = h[buffer this := copy_bytes (offset this) hi lo (h ! buffer this)]
          in Inr (if negate then Int64_2scomp this h' else h'))"

text \<open>
  \<open>valueOf\<close>: the sign is read from \<open>b[0]\<close>; \<open>for (var i = 0, ii = o + 7; i < 8; i++, ii--)\<close>
  reads \<open>b[ii]\<close>, here \<open>b[o + 7 - i]\<close>, complements it on the fly when \<open>negate\<close> and
  adds it to the double \<open>x\<close>.
\<close>

definition valueOf_step :: "buffer \<Rightarrow> nat \<Rightarrow> bool \<Rightarrow> nat \<Rightarrow> int \<times> int \<Rightarrow> int \<times> int" where
  "valueOf_step b o' negate i = (\<lambda>(x, carry).
     let v = int32_elem b (o' + 7 - i);
         v' = (if negate then (v XOR 0xff) + carry else v);
         carry' = (if negate then drop_bit 8 v' else carry)
     in (round53 (x + (v' AND 0xff) * 256 ^ i), carry'))"

definition valueOf :: "int64 \<Rightarrow> heap \<Rightarrow> jsnum" where
  "valueOf this h =
     (let b = h ! buffer this; o' = offset this;
          negate = (int32_elem b 0 AND 0x80 \<noteq> 0);
          x = fst (fold (valueOf_step b o' negate) [0..<8] (0, 1))
      in if x \<ge> MAX_INT then (if negate then NegInf else PosInf)
         else Num (of_int (if negate then - x else x)))"

text \<open>\<open>toOctetString(sep)\<close>; \<open>sep\<close> is a string or undefined (\<open>None\<close>).\<close>

definition toOctetString :: "int64 \<Rightarrow> string option \<Rightarrow> heap \<Rightarrow> string" where
  "toOctetString this sep h =
     (let b = h ! buffer this; o' = offset this;
          out = map (\<lambda>i. map_option (\<lambda>w. HEX (unat w)) (elem b (o' + i))) [0..<8]
      in join out (case sep of None \<Rightarrow> '''' | Some s \<Rightarrow> s))"

text \<open>
  The constructor: \<open>View a1 a2\<close> is \<open>new Int64(buffer[, offset])\<close>, \<open>Value a\<close> the other
  forms, which allocate a Buffer of 8 bytes and call \<open>setValue\<close>.
\<close>

datatype ctor_args = View ref "nat option" | Value arg

definition Int64 :: "ctor_args \<Rightarrow> (nat \<Rightarrow> byte) \<Rightarrow> heap \<Rightarrow> error + (int64 \<times> heap)" where
  "Int64 c mem h =
     (case c of
        View a1 a2 \<Rightarrow>
          Inr (\<lparr>buffer = a1, offset = (case a2 of None \<Rightarrow> 0 | Some k \<Rightarrow> k)\<rparr>, h)
      | Value a \<Rightarrow>
          let this = \<lparr>buffer = length h, offset = 0\<rparr>
          in (case setValue this a (h @ [new_Buffer mem 8]) of
                Inl e \<Rightarrow> Inl e
              | Inr h' \<Rightarrow> Inr (this, h')))"

section \<open>Notions used in the statements and proofs\<close>

text \<open>
  The number that one step of \<open>_2scomp\<close> computes from the byte at \<open>i\<close> and the carry:
  \<open>(b[i] ^ 0xff) + carry\<close>, which is \<open>255 - b[i] + carry\<close>.
\<close>

definition comp_val :: "buffer \<Rightarrow> nat \<Rightarrow> int \<Rightarrow> int" where
  "comp_val b i c = 255 - int32_elem b i + c"

text \<open>
  The unsigned value of the eight bytes of a Buffer from index \<open>k\<close> on, the byte at \<open>k\<close>
  the most significant: \<open>wsum f n\<close> is the sum of \<open>f j * 256^j\<close> for \<open>j\<close> below \<open>n\<close>.
\<close>

primrec wsum :: "(nat \<Rightarrow> int) \<Rightarrow> nat \<Rightarrow> int" where
  "wsum f 0 = 0"
| "wsum f (Suc n) = wsum f n + f n * 256 ^ n"

definition be_value :: "buffer \<Rightarrow> nat \<Rightarrow> int" where
  "be_value b k = wsum (\<lambda>j. int32_elem b (k + 7 - j)) 8"

text \<open>A memory of zero bytes, for the concrete runs.\<close>

definition zeroed :: "nat \<Rightarrow> byte" where
  "zeroed i = 0"

text \<open>
  Case normalisation, as the property of hexadecimal strings words it: a capital letter
  \<open>A\<close> to \<open>Z\<close> becomes the small one, every other character stays.
\<close>

definition to_lower :: "char \<Rightarrow> char" where
  "to_lower c = (let k = (of_char c :: nat) in if 65 \<le> k \<and> k \<le> 90 then char_of (k + 32) else c)"

section \<open>Bit operations on small integers\<close>

lemma and_ff: "(v::int) AND 0xff = v mod 256"
proof -
  have "(0xff::int) = mask 8" by (simp add: mask_eq_exp_minus_1)
  then have "v AND 0xff = take_bit 8 v" by (simp add: take_bit_eq_mask)
  then show ?thesis by (simp add: take_bit_int_def)
qed

lemma xor_ff:
  assumes "0 \<le> u" and "u < 256"
  shows "u XOR 0xff = 255 - (u::int)"
proof -
  have tb: "take_bit 8 u = u"
    using assms by (simp add: take_bit_int_def)
  have m: "(0xff::int) = mask 8"
    by (simp add: mask_eq_exp_minus_1)
  have "u XOR mask 8 = take_bit 8 (NOT u)"
  proof (rule bit_eqI)
    fix k
    show "bit (u XOR mask 8) k = bit (take_bit 8 (NOT u)) k"
    proof (cases "k < 8")
      case True
      then show ?thesis
        by (simp add: bit_xor_iff bit_mask_iff bit_take_bit_iff bit_not_iff)
    next
      case False
      have "bit u k = bit (take_bit 8 u) k"
        by (simp only: tb)
      then have "\<not> bit u k"
        using False by (simp add: bit_take_bit_iff)
      then show ?thesis
        using False by (simp add: bit_xor_iff bit_mask_iff bit_take_bit_iff)
    qed
  qed
  also have "\<dots> = mask 8 - take_bit 8 u"
    by (rule take_bit_not_eq_mask_diff)
  finally have "u XOR mask 8 = mask 8 - u"
    by (simp only: tb)
  then show ?thesis
    by (simp only: m)
qed

lemma shr8: "drop_bit 8 (v::int) = v div 256"
  by (simp add: drop_bit_int_def)

lemma byte_of_mod: "(word_of_int (v mod 256) :: byte) = word_of_int v"
  by (simp only: word_of_int_eq_iff take_bit_int_def) simp

lemma uint_byte_of: "uint (word_of_int v :: byte) = v mod 256"
  by (simp add: uint_word_of_int)

section \<open>The loop of \<open>_2scomp\<close>\<close>

lemma int32_elem_range: "0 \<le> int32_elem b i \<and> int32_elem b i < 256"
proof -
  have "uint w < 256" for w :: byte
    using uint_bounded [of w] by simp
  then show ?thesis
    by (simp add: int32_elem_def elem_def)
qed

lemma int32_elem_update:
  "i \<noteq> j \<Longrightarrow> int32_elem (b[j := w]) i = int32_elem b i"
  by (simp add: int32_elem_def elem_def)

lemma int32_elem_same:
  "int32_elem (b[i := w]) i = (if i < length b then uint w else 0)"
  by (simp add: int32_elem_def elem_def)

lemma scomp_step_eq:
  "scomp_step i (b, c) = (b[i := word_of_int (comp_val b i c)], comp_val b i c div 256)"
proof -
  have "int32_elem b i XOR 0xff = 255 - int32_elem b i"
    using int32_elem_range [of b i] by (intro xor_ff) simp_all
  then show ?thesis
    by (simp only: scomp_step_def store_def Let_def and_ff shr8 byte_of_mod comp_val_def split_conv)
qed

lemma fold_scomp_update:
  "i \<notin> set js \<Longrightarrow>
   fold scomp_step js (b[i := w], c) =
     ((fst (fold scomp_step js (b, c)))[i := w], snd (fold scomp_step js (b, c)))"
proof (induction js arbitrary: b c)
  case Nil
  then show ?case by simp
next
  case (Cons j js)
  then have ne: "j \<noteq> i" and notin: "i \<notin> set js" by auto
  have "comp_val (b[i := w]) j c = comp_val b j c"
    using ne by (simp add: comp_val_def int32_elem_update)
  moreover have "b[i := w, j := x] = b[j := x, i := w]" for x
    using ne by (metis list_update_swap)
  ultimately show ?case
    using Cons.IH [OF notin] by (simp add: scomp_step_eq)
qed

lemma fold_scomp_frame:
  "length (fst (fold scomp_step js (b, c))) = length b \<and>
   (i \<notin> set js \<longrightarrow> fst (fold scomp_step js (b, c)) ! i = b ! i)"
proof (induction js arbitrary: b c)
  case Nil
  then show ?case by simp
next
  case (Cons j js)
  show ?case
    using Cons.IH [of "b[j := word_of_int (comp_val b j c)]" "comp_val b j c div 256"]
    by (auto simp: scomp_step_eq)
qed

lemma comp_arith:
  fixes u c :: int
  assumes "0 \<le> u" and "u < 256" and "c = 0 \<or> c = 1"
  shows "(255 - (255 - u + c) mod 256 + c) mod 256 = u"
    and "(255 - (255 - u + c) mod 256 + c) div 256 = (255 - u + c) div 256"
proof -
  let ?v = "255 - u + c"
  have both: "(255 - ?v mod 256 + c) mod 256 = u \<and> (255 - ?v mod 256 + c) div 256 = ?v div 256"
  proof (cases "?v = 256")
    case True
    then have "c = 1" and "u = 0" using assms by linarith+
    then show ?thesis by simp
  next
    case False
    then have v: "0 \<le> ?v" "?v < 256" using assms by linarith+
    then have vm: "?v mod 256 = ?v" and vd: "?v div 256 = 0"
      by (simp_all only: mod_pos_pos_trivial div_pos_pos_trivial)
    have rest: "255 - ?v + c = u"
      by simp
    show ?thesis
      unfolding vm vd rest using assms(1,2) by simp
  qed
  from both show "(255 - ?v mod 256 + c) mod 256 = u" ..
  from both show "(255 - ?v mod 256 + c) div 256 = ?v div 256" ..
qed

lemma comp_val_twice:
  assumes "c = 0 \<or> c = 1" and "i < length b"
  shows "(word_of_int (comp_val (b[i := word_of_int (comp_val b i c)]) i c) :: byte) = b ! i"
    and "comp_val (b[i := word_of_int (comp_val b i c)]) i c div 256 = comp_val b i c div 256"
proof -
  let ?u = "uint (b ! i)"
  have u: "0 \<le> ?u" "?u < 256"
    using uint_bounded [of "b ! i"] by simp_all
  have cv: "comp_val b i c = 255 - ?u + c"
    using assms by (simp add: comp_val_def int32_elem_def elem_def)
  have "int32_elem (b[i := word_of_int (comp_val b i c)]) i = (255 - ?u + c) mod 256"
    using assms(2) by (simp only: int32_elem_same uint_byte_of cv if_True)
  then have cv2: "comp_val (b[i := word_of_int (comp_val b i c)]) i c
      = 255 - (255 - ?u + c) mod 256 + c"
    by (simp only: comp_val_def)
  have "(word_of_int (255 - (255 - ?u + c) mod 256 + c) :: byte)
      = word_of_int ((255 - (255 - ?u + c) mod 256 + c) mod 256)"
    by (simp only: byte_of_mod)
  also have "\<dots> = word_of_int ?u"
    by (simp only: comp_arith(1) [OF u assms(1)])
  also have "\<dots> = b ! i"
    by simp
  finally show "(word_of_int (comp_val (b[i := word_of_int (comp_val b i c)]) i c) :: byte) = b ! i"
    by (simp only: cv2)
  have "(255 - (255 - ?u + c) mod 256 + c) div 256 = comp_val b i c div 256"
    by (simp only: cv comp_arith(2) [OF u assms(1)])
  then show "comp_val (b[i := word_of_int (comp_val b i c)]) i c div 256 = comp_val b i c div 256"
    by (simp only: cv2)
qed

lemma comp_val_carry:
  assumes "c = 0 \<or> c = 1"
  shows "comp_val b i c div 256 = 0 \<or> comp_val b i c div 256 = 1"
proof (cases "comp_val b i c = 256")
  case True
  then show ?thesis by simp
next
  case False
  then have "0 \<le> comp_val b i c" and "comp_val b i c < 256"
    using assms int32_elem_range [of b i] unfolding comp_val_def by linarith+
  then have "comp_val b i c div 256 = 0"
    by (rule div_pos_pos_trivial)
  then show ?thesis ..
qed

lemma comp_val_outside:
  assumes "c = 0 \<or> c = 1" and "\<not> i < length b"
  shows "comp_val b i c div 256 = c"
proof -
  have "comp_val b i c = 255 + c"
    using assms(2) by (simp add: comp_val_def int32_elem_def elem_def)
  then show ?thesis
    using assms(1) by auto
qed

lemma fold_scomp_twice:
  "distinct js \<Longrightarrow> c = 0 \<or> c = 1 \<Longrightarrow>
   fold scomp_step js (fst (fold scomp_step js (b, c)), c) = (b, snd (fold scomp_step js (b, c)))"
proof (induction js arbitrary: b c)
  case Nil
  then show ?case by simp
next
  case (Cons j js)
  let ?w = "word_of_int (comp_val b j c) :: byte"
  let ?c1 = "comp_val b j c div 256"
  let ?b1 = "b[j := ?w]"
  let ?r = "fold scomp_step js (?b1, ?c1)"
  from Cons.prems have notin: "j \<notin> set js" and dist: "distinct js" by simp_all
  have c1: "?c1 = 0 \<or> ?c1 = 1"
    using Cons.prems(2) by (rule comp_val_carry)
  have IH: "fold scomp_step js (fst ?r, ?c1) = (?b1, snd ?r)"
    using Cons.IH [OF dist c1] .
  have first: "fold scomp_step (j # js) (b, c) = ?r"
    by (simp add: scomp_step_eq)
  have len: "length (fst ?r) = length b"
    using fold_scomp_frame [of js ?b1 ?c1 j] by simp
  have nth: "fst ?r ! j = ?b1 ! j"
    using fold_scomp_frame [of js ?b1 ?c1 j] notin by simp
  show ?case
  proof (cases "j < length b")
    case True
    have same: "comp_val (fst ?r) j c = comp_val ?b1 j c"
      using True len nth by (simp add: comp_val_def int32_elem_def elem_def)
    have "scomp_step j (fst ?r, c) = ((fst ?r)[j := b ! j], ?c1)"
      using comp_val_twice [OF Cons.prems(2) True] by (simp only: scomp_step_eq same)
    then have "fold scomp_step (j # js) (fst ?r, c) = fold scomp_step js ((fst ?r)[j := b ! j], ?c1)"
      by simp
    also have "\<dots> = ((fst (fold scomp_step js (fst ?r, ?c1)))[j := b ! j],
        snd (fold scomp_step js (fst ?r, ?c1)))"
      using notin by (rule fold_scomp_update)
    also have "\<dots> = (b, snd ?r)"
      by (simp add: IH)
    finally show ?thesis
      by (simp only: first)
  next
    case False
    then have b1: "?b1 = b" by (simp add: list_update_beyond)
    have c1': "?c1 = c"
      using Cons.prems(2) False by (rule comp_val_outside)
    have out: "\<not> j < length (fst ?r)"
      using False len by simp
    have "comp_val (fst ?r) j c div 256 = ?c1"
      using comp_val_outside [OF Cons.prems(2) out] c1' by simp
    moreover have "(fst ?r)[j := w] = fst ?r" for w
      using out by (simp add: list_update_beyond)
    ultimately have "scomp_step j (fst ?r, c) = (fst ?r, ?c1)"
      by (simp only: scomp_step_eq)
    then have "fold scomp_step (j # js) (fst ?r, c) = fold scomp_step js (fst ?r, ?c1)"
      by simp
    also have "\<dots> = (b, snd ?r)"
      using IH b1 by simp
    finally show ?thesis
      by (simp only: first)
  qed
qed

lemma scomp_buffer_twice: "scomp_buffer k (scomp_buffer k b) = b"
  using fold_scomp_twice [of "rev [k..<k + 8]" 1 b] by (simp add: scomp_buffer_def)

section \<open>The copy loop of \<open>setValue\<close>\<close>

lemma trunc_of_int: "trunc (of_int k) = k"
  by (simp add: trunc_def)

lemma ToUint32_range: "0 \<le> ToUint32 v \<and> ToUint32 v < 2 ^ 32"
  by (cases v) simp_all

lemma ToUint32_of_int: "ToUint32 (Num (of_int k)) = k mod 2 ^ 32"
  by (simp add: trunc_of_int)

lemma ToUint32_shift:
  assumes "0 < d"
  shows "ToUint32 (Num (of_int (ToUint32 v div d))) = ToUint32 v div d"
proof -
  have "0 \<le> ToUint32 v div d"
    using ToUint32_range [of v] assms by (simp add: pos_imp_zdiv_nonneg_iff)
  moreover have "ToUint32 v div d \<le> ToUint32 v"
    using zdiv_mono2 [of "ToUint32 v" 1 d] ToUint32_range [of v] assms by simp
  then have "ToUint32 v div d < 2 ^ 32"
    using ToUint32_range [of v] by linarith
  ultimately show ?thesis
    by (simp only: ToUint32_of_int mod_pos_pos_trivial)
qed

lemma byte_of_ToInt32: "(word_of_int (ToInt32 v) :: byte) = word_of_int (ToUint32 v)"
proof -
  have "(word_of_int (m - 2 ^ 32) :: byte) = word_of_int m" for m :: int
    by (simp only: word_of_int_eq_iff take_bit_int_def) (simp add: mod_diff_right_eq [symmetric])
  then show ?thesis
    by (simp add: ToInt32_def Let_def del: ToUint32.simps)
qed

lemma copy_step_eq:
  "copy_step k hi i (b, lo) =
     (b[k + i := word_of_int (ToUint32 lo)],
      if i = 4 then hi else Num (of_int (ToUint32 lo div 256)))"
  by (simp only: copy_step_def store_def and_ff shr8 byte_of_mod byte_of_ToInt32 split_conv)

lemma rev_upt8: "rev [0..<8] = [7, 6, 5, 4, 3, 2, 1, 0]"
  by (simp add: upt_rec)

lemma div256_twice: "(x::int) div 256 div 256 = x div 65536" "(x::int) div 65536 div 256 = x div 16777216"
  by (simp_all add: zdiv_zmult2_eq [symmetric])

lemma copy_bytes_eq:
  "copy_bytes k hi lo b =
     b[k + 7 := word_of_int (ToUint32 lo),
       k + 6 := word_of_int (ToUint32 lo div 256),
       k + 5 := word_of_int (ToUint32 lo div 65536),
       k + 4 := word_of_int (ToUint32 lo div 16777216),
       k + 3 := word_of_int (ToUint32 hi),
       k + 2 := word_of_int (ToUint32 hi div 256),
       k + 1 := word_of_int (ToUint32 hi div 65536),
       k := word_of_int (ToUint32 hi div 16777216)]"
  by (simp add: copy_bytes_def rev_upt8 copy_step_eq ToUint32_shift div256_twice del: ToUint32.simps)

lemma copy_bytes_frame:
  "length (copy_bytes k hi lo b) = length b \<and>
   (j < k \<or> k + 8 \<le> j \<longrightarrow> copy_bytes k hi lo b ! j = b ! j)"
  by (simp add: copy_bytes_eq)

lemma scomp_buffer_frame:
  "length (scomp_buffer k b) = length b \<and>
   (j < k \<or> k + 8 \<le> j \<longrightarrow> scomp_buffer k b ! j = b ! j)"
  using fold_scomp_frame [of "rev [k..<k + 8]" b 1 j] by (auto simp: scomp_buffer_def)

lemma heap_update_frame:
  assumes "length b' = length (h ! r)"
    and "\<And>j. j < k \<or> k + 8 \<le> j \<Longrightarrow> b' ! j = (h ! r) ! j"
  shows "length (h[r := b']) = length h \<and>
    (\<forall>r'. r' \<noteq> r \<longrightarrow> h[r := b'] ! r' = h ! r') \<and>
    length (h[r := b'] ! r) = length (h ! r) \<and>
    (\<forall>j. j < k \<or> k + 8 \<le> j \<longrightarrow> (h[r := b'] ! r) ! j = (h ! r) ! j)"
proof (cases "r < length h")
  case True
  then show ?thesis using assms by simp
next
  case False
  then show ?thesis by (simp add: list_update_beyond)
qed

lemma new_Buffer_8:
  "new_Buffer mem 8 = [mem 0, mem 1, mem 2, mem 3, mem 4, mem 5, mem 6, mem 7]"
proof -
  have "[0..<8] = [0, 1, 2, 3, 4, 5, 6, 7]"
    by (simp add: upt_rec)
  then show ?thesis
    by (simp add: new_Buffer_def)
qed

lemma copy_bytes_new:
  "copy_bytes 0 hi lo (new_Buffer mem 8) =
     [word_of_int (ToUint32 hi div 16777216), word_of_int (ToUint32 hi div 65536),
      word_of_int (ToUint32 hi div 256), word_of_int (ToUint32 hi),
      word_of_int (ToUint32 lo div 16777216), word_of_int (ToUint32 lo div 65536),
      word_of_int (ToUint32 lo div 256), word_of_int (ToUint32 lo)]"
  by (simp add: copy_bytes_eq new_Buffer_8 del: ToUint32.simps)

lemma Int64_Value:
  assumes "decode_args a = Inr (negate, hi, lo)"
  shows "Int64 (Value a) mem h =
     Inr (\<lparr>buffer = length h, offset = 0\<rparr>,
          h @ [if negate then scomp_buffer 0 (copy_bytes 0 hi lo (new_Buffer mem 8))
               else copy_bytes 0 hi lo (new_Buffer mem 8)])"
  using assms by (simp add: Int64_def setValue_def Int64_2scomp_def Let_def)

lemma Int64_Value_error:
  assumes "decode_args a = Inl e"
  shows "Int64 (Value a) mem h = Inl e"
  using assms by (simp add: Int64_def setValue_def)

section \<open>Rounding to a double\<close>

lemma ulp_exp_small: "m < 2 ^ 53 \<Longrightarrow> ulp_exp m = 0"
  by (simp add: ulp_exp.simps)

lemma round53_exact: "m < 2 ^ 53 \<Longrightarrow> round53 m = m"
  by (simp add: round53_def ulp_exp_small)

lemma ulp_exp_large:
  "2 ^ 53 \<le> m \<Longrightarrow> 0 < ulp_exp m \<and> 2 ^ 52 \<le> m div 2 ^ ulp_exp m"
proof (induction m rule: ulp_exp.induct)
  case (1 m)
  have unfold: "ulp_exp m = Suc (ulp_exp (m div 2))"
    using "1.prems" by (subst ulp_exp.simps) simp
  show ?case
  proof (cases "m div 2 < 2 ^ 53")
    case True
    then have "ulp_exp (m div 2) = 0"
      by (rule ulp_exp_small)
    moreover have "(2::int) ^ 52 \<le> m div 2"
      using "1.prems" by simp
    ultimately show ?thesis
      by (simp add: unfold)
  next
    case False
    then have "2 ^ 52 \<le> (m div 2) div 2 ^ ulp_exp (m div 2)"
      using "1.IH" "1.prems" by simp
    moreover have "m div 2 ^ Suc (ulp_exp (m div 2)) = (m div 2) div 2 ^ ulp_exp (m div 2)"
      by (simp add: zdiv_zmult2_eq)
    ultimately show ?thesis
      by (simp only: unfold) simp
  qed
qed

lemma round53_large:
  assumes "2 ^ 53 \<le> m"
  shows "2 ^ 53 \<le> round53 m"
proof -
  let ?e = "ulp_exp m"
  let ?q = "m div 2 ^ ?e"
  have e: "0 < ?e" and q: "2 ^ 52 \<le> ?q"
    using ulp_exp_large [OF assms] by simp_all
  have "(2::int) ^ 1 \<le> 2 ^ ?e"
    using e by (intro power_increasing) simp_all
  then have two: "(2::int) \<le> 2 ^ ?e"
    by simp
  have "(2::int) ^ 52 * 2 \<le> ?q * 2 ^ ?e"
    using q two by (intro mult_mono) simp_all
  then have low: "2 ^ 53 \<le> ?q * 2 ^ ?e"
    by simp
  have "?q * 2 ^ ?e \<le> (?q + 1) * 2 ^ ?e"
    by (simp add: algebra_simps)
  then have "2 ^ 53 \<le> (?q + 1) * 2 ^ ?e"
    using low by linarith
  then show ?thesis
    using low by (simp add: round53_def Let_def)
qed

section \<open>The loop of \<open>valueOf\<close>\<close>

lemma wsum_cong: "(\<And>j. j < n \<Longrightarrow> f j = g j) \<Longrightarrow> wsum f n = wsum g n"
  by (induction n) simp_all

lemma wsum_bounds:
  assumes "\<And>j. j < n \<Longrightarrow> 0 \<le> f j \<and> f j < 256"
  shows "0 \<le> wsum f n \<and> wsum f n < 256 ^ n"
  using assms
proof (induction n)
  case 0
  then show ?case by simp
next
  case (Suc n)
  have IH: "0 \<le> wsum f n" "wsum f n < 256 ^ n"
    using Suc by simp_all
  have f: "0 \<le> f n" "f n \<le> 255"
    using Suc.prems [of n] by simp_all
  have "f n * 256 ^ n \<le> 255 * 256 ^ n"
    using f by (intro mult_right_mono) simp_all
  then have "wsum f n + f n * 256 ^ n < 256 ^ n + 255 * 256 ^ n"
    using IH by linarith
  moreover have "0 \<le> f n * 256 ^ n"
    using f by simp
  ultimately show ?case
    using IH by simp
qed

lemma be_value_bounds: "0 \<le> be_value b k \<and> be_value b k < 2 ^ 64"
proof -
  have "0 \<le> wsum (\<lambda>j. int32_elem b (k + 7 - j)) 8 \<and>
      wsum (\<lambda>j. int32_elem b (k + 7 - j)) 8 < 256 ^ 8"
    by (rule wsum_bounds) (rule int32_elem_range)
  then show ?thesis
    by (simp add: be_value_def)
qed

lemma valueOf_step_eq:
  "valueOf_step b k neg i (x, c) =
     (if neg
      then (round53 (x + (comp_val b (k + 7 - i) c mod 256) * 256 ^ i),
            comp_val b (k + 7 - i) c div 256)
      else (round53 (x + int32_elem b (k + 7 - i) * 256 ^ i), c))"
proof -
  have x: "int32_elem b (k + 7 - i) XOR 0xff = 255 - int32_elem b (k + 7 - i)"
    using int32_elem_range [of b "k + 7 - i"] by (intro xor_ff) simp_all
  have m: "int32_elem b (k + 7 - i) mod 256 = int32_elem b (k + 7 - i)"
    using int32_elem_range [of b "k + 7 - i"] by (intro mod_pos_pos_trivial) simp_all
  show ?thesis
  proof (cases neg)
    case True
    then show ?thesis
      by (simp add: valueOf_step_def Let_def x and_ff shr8 comp_val_def)
  next
    case False
    then show ?thesis
      by (simp add: valueOf_step_def Let_def m and_ff)
  qed
qed

lemma round53_approx:
  assumes "E < 2 ^ 53 \<longrightarrow> X = E" and "2 ^ 53 \<le> E \<longrightarrow> 2 ^ 53 \<le> X" and "0 \<le> t"
  shows "(E + t < 2 ^ 53 \<longrightarrow> round53 (X + t) = E + t) \<and>
         (2 ^ 53 \<le> E + t \<longrightarrow> 2 ^ 53 \<le> round53 (X + t))"
proof (cases "E < 2 ^ 53")
  case True
  then have "X = E" using assms(1) by simp
  then show ?thesis
    using round53_exact [of "E + t"] round53_large [of "E + t"] by auto
next
  case False
  then have "2 ^ 53 \<le> X + t" using assms(2,3) by simp
  then have "2 ^ 53 \<le> round53 (X + t)" by (rule round53_large)
  then show ?thesis
    using False assms(3) by simp
qed

text \<open>The loop of \<open>valueOf\<close> on a value whose sign flag is clear.\<close>

lemma fold_valueOf_pos:
  "\<exists>X. fold (valueOf_step b k False) [0..<n] (0, 1) = (X, 1) \<and>
     (wsum (\<lambda>j. int32_elem b (k + 7 - j)) n < 2 ^ 53 \<longrightarrow>
        X = wsum (\<lambda>j. int32_elem b (k + 7 - j)) n) \<and>
     (2 ^ 53 \<le> wsum (\<lambda>j. int32_elem b (k + 7 - j)) n \<longrightarrow> 2 ^ 53 \<le> X)"
proof (induction n)
  case 0
  then show ?case by simp
next
  case (Suc n)
  let ?y = "\<lambda>j. int32_elem b (k + 7 - j)"
  from Suc obtain X where X: "fold (valueOf_step b k False) [0..<n] (0, 1) = (X, 1)"
    and lo: "wsum ?y n < 2 ^ 53 \<longrightarrow> X = wsum ?y n"
    and hi: "2 ^ 53 \<le> wsum ?y n \<longrightarrow> 2 ^ 53 \<le> X"
    by blast
  have t: "0 \<le> ?y n * 256 ^ n"
    using int32_elem_range [of b "k + 7 - n"] by simp
  have "fold (valueOf_step b k False) [0..<Suc n] (0, 1) = (round53 (X + ?y n * 256 ^ n), 1)"
    by (simp add: X valueOf_step_eq)
  then show ?case
    using round53_approx [OF lo hi t] by simp
qed

text \<open>
  The loop on a value whose sign flag is set: the exact sum \<open>E\<close> of the complemented
  bytes and the carry \<open>c\<close> satisfy \<open>E + c * 256^n = 256^n - Y\<close>, where \<open>Y\<close> is the value of
  the \<open>n\<close> bytes read.
\<close>

lemma fold_valueOf_neg:
  "\<exists>X c E. fold (valueOf_step b k True) [0..<n] (0, 1) = (X, c) \<and>
     (c = 0 \<or> c = 1) \<and> 0 \<le> E \<and> E < 256 ^ n \<and>
     E + c * 256 ^ n = 256 ^ n - wsum (\<lambda>j. int32_elem b (k + 7 - j)) n \<and>
     (E < 2 ^ 53 \<longrightarrow> X = E) \<and> (2 ^ 53 \<le> E \<longrightarrow> 2 ^ 53 \<le> X)"
proof (induction n)
  case 0
  have "fold (valueOf_step b k True) [0..<0] (0, 1) = (0, 1)"
    by simp
  then show ?case
    by (intro exI [of _ 0] exI [of _ 1]) simp
next
  case (Suc n)
  let ?y = "\<lambda>j. int32_elem b (k + 7 - j)"
  from Suc obtain X c E where X: "fold (valueOf_step b k True) [0..<n] (0, 1) = (X, c)"
    and c: "c = 0 \<or> c = 1" and E: "0 \<le> E" "E < 256 ^ n"
    and inv: "E + c * 256 ^ n = 256 ^ n - wsum ?y n"
    and lo: "E < 2 ^ 53 \<longrightarrow> X = E" and hi: "2 ^ 53 \<le> E \<longrightarrow> 2 ^ 53 \<le> X"
    by blast
  let ?v = "comp_val b (k + 7 - n) c"
  have v: "?v = 255 - ?y n + c"
    by (simp add: comp_val_def)
  have vm: "0 \<le> ?v mod 256" "?v mod 256 \<le> 255"
    by simp_all
  have t: "0 \<le> ?v mod 256 * 256 ^ n"
    using vm by simp
  have step: "fold (valueOf_step b k True) [0..<Suc n] (0, 1)
      = (round53 (X + ?v mod 256 * 256 ^ n), ?v div 256)"
    by (simp add: X valueOf_step_eq)
  have c': "?v div 256 = 0 \<or> ?v div 256 = 1"
    using c by (rule comp_val_carry)
  have "?v mod 256 * 256 ^ n \<le> 255 * 256 ^ n"
    using vm by (intro mult_right_mono) simp_all
  then have "E + ?v mod 256 * 256 ^ n < 256 ^ n + 255 * 256 ^ n"
    using E by linarith
  then have bound: "E + ?v mod 256 * 256 ^ n < 256 ^ Suc n"
    by simp
  have split: "?v mod 256 + ?v div 256 * 256 = ?v"
    by simp
  have "(E + r * P) + q * (256 * P) = E + (r + q * 256) * P" for r q P :: int
    by (simp add: algebra_simps)
  then have "(E + ?v mod 256 * 256 ^ n) + ?v div 256 * 256 ^ Suc n
      = E + (?v mod 256 + ?v div 256 * 256) * 256 ^ n"
    by (simp only: power_Suc)
  also have "\<dots> = E + ?v * 256 ^ n"
    by (simp only: split)
  also have "\<dots> = E + (255 - ?y n + c) * 256 ^ n"
    by (simp only: v)
  also have "\<dots> = (E + c * 256 ^ n) + (255 - ?y n) * 256 ^ n"
    by (simp add: algebra_simps)
  also have "\<dots> = 256 ^ Suc n - wsum ?y (Suc n)"
    by (simp only: inv) (simp add: algebra_simps)
  finally have inv': "(E + ?v mod 256 * 256 ^ n) + ?v div 256 * 256 ^ Suc n
      = 256 ^ Suc n - wsum ?y (Suc n)" .
  have E': "0 \<le> E + ?v mod 256 * 256 ^ n"
    using E(1) t by simp
  show ?case
    using step c' E' bound inv' round53_approx [OF lo hi t] by blast
qed

lemma upt8: "[0..<8] = [0, 1, 2, 3, 4, 5, 6, 7]"
  by (simp add: upt_rec)

lemma sign_bit:
  assumes "0 \<le> y" and "y < 256"
  shows "(y AND 0x80 \<noteq> 0) = (128 \<le> (y::int))"
proof -
  have "(y AND 2 ^ 7 = 0) = (\<not> bit y 7)"
    by (rule and_exp_eq_0_iff_not_bit)
  moreover have "bit y 7 = odd (y div 2 ^ 7)"
    by (rule bit_iff_odd)
  moreover have "odd (y div 128) = (128 \<le> y)"
  proof (cases "128 \<le> y")
    case True
    then have "y div 128 = 1" using assms by simp
    then show ?thesis using True by simp
  next
    case False
    then have "y div 128 = 0" using assms by simp
    then show ?thesis using False by simp
  qed
  ultimately show ?thesis by simp
qed

text \<open>
  What \<open>valueOf\<close> returns, by the value \<open>Y\<close> of the eight bytes at the offset and the
  sign flag read at index 0.
\<close>

lemma valueOf_eq:
  "valueOf this h =
     (let b = h ! buffer this; Y = be_value b (offset this);
          neg = (128 \<le> int32_elem b 0);
          m = (if neg then (if Y = 0 then 0 else 2 ^ 64 - Y) else Y)
      in if 2 ^ 53 \<le> m then (if neg then NegInf else PosInf)
         else Num (of_int (if neg then - m else m)))"
proof -
  let ?b = "h ! buffer this" and ?k = "offset this"
  let ?Y = "be_value ?b ?k"
  have neg: "(int32_elem ?b 0 AND 0x80 \<noteq> 0) = (128 \<le> int32_elem ?b 0)"
    using int32_elem_range [of ?b 0] by (intro sign_bit) simp_all
  have Y: "0 \<le> ?Y" "?Y < 2 ^ 64"
    using be_value_bounds [of ?b ?k] by simp_all
  show ?thesis
  proof (cases "128 \<le> int32_elem ?b 0")
    case False
    obtain X where X: "fold (valueOf_step ?b ?k False) [0..<8] (0, 1) = (X, 1)"
      and lo: "?Y < 2 ^ 53 \<longrightarrow> X = ?Y" and hi: "2 ^ 53 \<le> ?Y \<longrightarrow> 2 ^ 53 \<le> X"
      using fold_valueOf_pos [of ?b ?k 8] unfolding be_value_def by blast
    have "valueOf this h = (if 2 ^ 53 \<le> X then PosInf else Num (of_int X))"
      using False X by (simp add: valueOf_def neg MAX_INT_def Let_def)
    also have "\<dots> = (if 2 ^ 53 \<le> ?Y then PosInf else Num (of_int ?Y))"
      using lo hi by auto
    finally show ?thesis
      using False by (simp add: Let_def)
  next
    case True
    obtain X c E where X: "fold (valueOf_step ?b ?k True) [0..<8] (0, 1) = (X, c)"
      and c: "c = 0 \<or> c = 1" and E: "0 \<le> E" "E < 256 ^ 8"
      and inv: "E + c * 256 ^ 8 = 256 ^ 8 - ?Y"
      and lo: "E < 2 ^ 53 \<longrightarrow> X = E" and hi: "2 ^ 53 \<le> E \<longrightarrow> 2 ^ 53 \<le> X"
      using fold_valueOf_neg [of ?b ?k 8] unfolding be_value_def by blast
    have Eeq: "E = (if ?Y = 0 then 0 else 2 ^ 64 - ?Y)"
      using c E inv Y by auto
    have "valueOf this h = (if 2 ^ 53 \<le> X then NegInf else Num (of_int (- X)))"
      using True X by (simp add: valueOf_def neg MAX_INT_def Let_def)
    also have "\<dots> = (if 2 ^ 53 \<le> E then NegInf else Num (of_int (- E)))"
      using lo hi by auto
    finally show ?thesis
      using True by (simp add: Let_def Eeq)
  qed
qed

text \<open>The most significant byte of an object at offset 0 is the byte at index 0.\<close>

lemma top_byte: "int32_elem b 0 = be_value b 0 div 2 ^ 56"
proof -
  let ?y = "\<lambda>j. int32_elem b (0 + 7 - j)"
  have low: "0 \<le> wsum ?y 7 \<and> wsum ?y 7 < 256 ^ 7"
    by (rule wsum_bounds) (rule int32_elem_range)
  have "be_value b 0 = wsum ?y 7 + int32_elem b 0 * 256 ^ 7"
    by (simp add: be_value_def eval_nat_numeral)
  then have "be_value b 0 div 2 ^ 56 = (wsum ?y 7 + int32_elem b 0 * 2 ^ 56) div 2 ^ 56"
    by simp
  also have "\<dots> = int32_elem b 0"
    using low by simp
  finally show ?thesis by simp
qed

lemma sign_flag_offset_0: "(128 \<le> int32_elem b 0) = (2 ^ 63 \<le> be_value b 0)"
proof -
  let ?Y = "be_value b 0"
  have lin: "(128 \<le> q) = (9223372036854775808 \<le> 72057594037927936 * q + r)"
    if "0 \<le> r" and "r < 72057594037927936" for q r :: int
    using that by arith
  have "?Y = 72057594037927936 * (?Y div 72057594037927936) + ?Y mod 72057594037927936"
    by simp
  moreover have "(128 \<le> ?Y div 72057594037927936)
      = (9223372036854775808 \<le> 72057594037927936 * (?Y div 72057594037927936)
          + ?Y mod 72057594037927936)"
    by (rule lin) simp_all
  ultimately have "(128 \<le> ?Y div 72057594037927936) = (9223372036854775808 \<le> ?Y)"
    by simp
  then show ?thesis
    by (simp add: top_byte)
qed

section \<open>The value that \<open>_2scomp\<close> leaves\<close>

lemma rev_upt_offset: "rev [k..<k + 8] = map (\<lambda>j. k + 7 - j) [0..<8]"
proof -
  have "[k..<k + 8] = map (\<lambda>i. i + k) [0..<8]"
    by (simp only: map_add_upt add.commute)
  then show ?thesis
    by (simp add: upt8 rev_map)
qed

text \<open>
  The first \<open>n\<close> steps of \<open>_2scomp\<close> on a Buffer that holds the eight bytes: the new low
  \<open>n\<close> bytes and the carry are \<open>256^n\<close> minus the old low \<open>n\<close> bytes.
\<close>

lemma fold_scomp_value:
  assumes "k + 8 \<le> length b" and "n \<le> 8"
  shows "\<exists>b' c. fold scomp_step (map (\<lambda>j. k + 7 - j) [0..<n]) (b, 1) = (b', c) \<and>
     (c = 0 \<or> c = 1) \<and> length b' = length b \<and>
     (\<forall>i. (\<forall>j<n. i \<noteq> k + 7 - j) \<longrightarrow> b' ! i = b ! i) \<and>
     wsum (\<lambda>j. int32_elem b' (k + 7 - j)) n + c * 256 ^ n
       = 256 ^ n - wsum (\<lambda>j. int32_elem b (k + 7 - j)) n"
  using assms(2)
proof (induction n)
  case 0
  show ?case
    by (intro exI [of _ b] exI [of _ 1]) simp
next
  case (Suc n)
  let ?i = "k + 7 - n"
  from Suc obtain b' c where run: "fold scomp_step (map (\<lambda>j. k + 7 - j) [0..<n]) (b, 1) = (b', c)"
    and c: "c = 0 \<or> c = 1" and len: "length b' = length b"
    and same: "\<forall>i. (\<forall>j<n. i \<noteq> k + 7 - j) \<longrightarrow> b' ! i = b ! i"
    and inv: "wsum (\<lambda>j. int32_elem b' (k + 7 - j)) n + c * 256 ^ n
       = 256 ^ n - wsum (\<lambda>j. int32_elem b (k + 7 - j)) n"
    by auto
  have n: "n < 8" using Suc.prems by simp
  have fresh: "\<forall>j<n. ?i \<noteq> k + 7 - j"
    using n by auto
  have i: "?i < length b'"
    using assms(1) len by simp
  have old: "int32_elem b' ?i = int32_elem b ?i"
    using same fresh len by (simp add: int32_elem_def elem_def)
  let ?v = "comp_val b' ?i c"
  let ?b'' = "b'[?i := word_of_int ?v]"
  have v: "?v = 255 - int32_elem b ?i + c"
    by (simp add: comp_val_def old)
  have step: "fold scomp_step (map (\<lambda>j. k + 7 - j) [0..<Suc n]) (b, 1) = (?b'', ?v div 256)"
    by (simp add: run scomp_step_eq)
  have c': "?v div 256 = 0 \<or> ?v div 256 = 1"
    using c by (rule comp_val_carry)
  have len': "length ?b'' = length b"
    using len by simp
  have same': "\<forall>i. (\<forall>j<Suc n. i \<noteq> k + 7 - j) \<longrightarrow> ?b'' ! i = b ! i"
  proof (intro allI impI)
    fix i
    assume a: "\<forall>j<Suc n. i \<noteq> k + 7 - j"
    then have "i \<noteq> ?i" and "\<forall>j<n. i \<noteq> k + 7 - j"
      by simp_all
    then show "?b'' ! i = b ! i"
      using same by simp
  qed
  have new: "int32_elem ?b'' ?i = ?v mod 256"
    using i by (simp only: int32_elem_same uint_byte_of if_True)
  have "int32_elem ?b'' (k + 7 - j) = int32_elem b' (k + 7 - j)" if "j < n" for j
    using that n by (intro int32_elem_update) simp
  then have low: "wsum (\<lambda>j. int32_elem ?b'' (k + 7 - j)) n = wsum (\<lambda>j. int32_elem b' (k + 7 - j)) n"
    by (rule wsum_cong)
  let ?W' = "wsum (\<lambda>j. int32_elem b' (k + 7 - j)) n"
  let ?W = "wsum (\<lambda>j. int32_elem b (k + 7 - j)) n"
  have split: "?v mod 256 + ?v div 256 * 256 = ?v"
    by simp
  have "(W + r * P) + q * (256 * P) = W + (r + q * 256) * P" for W r q P :: int
    by (simp add: algebra_simps)
  then have "(?W' + ?v mod 256 * 256 ^ n) + ?v div 256 * 256 ^ Suc n
      = ?W' + (?v mod 256 + ?v div 256 * 256) * 256 ^ n"
    by (simp only: power_Suc)
  also have "\<dots> = ?W' + ?v * 256 ^ n"
    by (simp only: split)
  also have "\<dots> = ?W' + (255 - int32_elem b ?i + c) * 256 ^ n"
    by (simp only: v)
  also have "\<dots> = (?W' + c * 256 ^ n) + (255 - int32_elem b ?i) * 256 ^ n"
    by (simp add: algebra_simps)
  also have "\<dots> = 256 ^ Suc n - (?W + int32_elem b ?i * 256 ^ n)"
    by (simp only: inv) (simp add: algebra_simps)
  finally have inv': "wsum (\<lambda>j. int32_elem ?b'' (k + 7 - j)) (Suc n) + ?v div 256 * 256 ^ Suc n
      = 256 ^ Suc n - wsum (\<lambda>j. int32_elem b (k + 7 - j)) (Suc n)"
    by (simp only: wsum.simps low new)
  show ?case
    using step c' len' same' inv' by blast
qed

lemma be_value_scomp:
  assumes "k + 8 \<le> length b"
  shows "be_value (scomp_buffer k b) k = (if be_value b k = 0 then 0 else 2 ^ 64 - be_value b k)"
proof -
  obtain b' c where run: "fold scomp_step (map (\<lambda>j. k + 7 - j) [0..<8]) (b, 1) = (b', c)"
    and c: "c = 0 \<or> c = 1"
    and inv: "wsum (\<lambda>j. int32_elem b' (k + 7 - j)) 8 + c * 256 ^ 8
       = 256 ^ 8 - wsum (\<lambda>j. int32_elem b (k + 7 - j)) 8"
    using fold_scomp_value [OF assms, of 8] by auto
  have b': "scomp_buffer k b = b'"
    by (simp only: scomp_buffer_def rev_upt_offset run fst_conv)
  have "be_value b' k + c * 2 ^ 64 = 2 ^ 64 - be_value b k"
    using inv by (simp add: be_value_def)
  then show ?thesis
    using c be_value_bounds [of b' k] be_value_bounds [of b k] unfolding b' by auto
qed

section \<open>The bytes of a number\<close>

text \<open>The value of eight bytes cut from two numbers of 32 bits.\<close>

lemma div_mod_bytes:
  assumes "0 \<le> x" and "x < 2 ^ 32"
  shows "x mod 256 + (x div 256 mod 256) * 256 + (x div 65536 mod 256) * 65536
     + (x div 16777216 mod 256) * 16777216 = (x::int)"
proof -
  have a: "x = x mod 256 + 256 * (x div 256)"
    by simp
  have "x div 256 = x div 256 mod 256 + 256 * (x div 256 div 256)"
    by simp
  then have b: "x div 256 = x div 256 mod 256 + 256 * (x div 65536)"
    by (simp only: div256_twice)
  have "x div 65536 = x div 65536 mod 256 + 256 * (x div 65536 div 256)"
    by simp
  then have c: "x div 65536 = x div 65536 mod 256 + 256 * (x div 16777216)"
    by (simp only: div256_twice)
  have "x div 16777216 \<le> 4294967295 div 16777216"
    using assms(2) by (intro zdiv_mono1) simp_all
  moreover have "0 \<le> x div 16777216"
    using assms(1) by (simp add: pos_imp_zdiv_nonneg_iff)
  ultimately have d: "x div 16777216 mod 256 = x div 16777216"
    by (intro mod_pos_pos_trivial) simp_all
  have "r0 + r1 * 256 + r2 * 65536 + x3 * 16777216 = x"
    if "x = r0 + 256 * x1" and "x1 = r1 + 256 * x2" and "x2 = r2 + 256 * x3"
    for r0 r1 r2 x1 x2 x3 :: int
    using that by linarith
  from this [OF a b c] show ?thesis
    by (simp only: d)
qed

lemma be_value_bytes:
  assumes "0 \<le> H" and "H < 2 ^ 32" and "0 \<le> L" and "L < 2 ^ 32"
  shows "be_value [word_of_int (H div 16777216), word_of_int (H div 65536),
      word_of_int (H div 256), word_of_int H,
      word_of_int (L div 16777216), word_of_int (L div 65536),
      word_of_int (L div 256), word_of_int L] 0 = H * 2 ^ 32 + L"
proof -
  have "be_value [word_of_int (H div 16777216), word_of_int (H div 65536),
      word_of_int (H div 256), word_of_int H,
      word_of_int (L div 16777216), word_of_int (L div 65536),
      word_of_int (L div 256), word_of_int L] 0
    = (L mod 256 + (L div 256 mod 256) * 256 + (L div 65536 mod 256) * 65536
        + (L div 16777216 mod 256) * 16777216)
      + (H mod 256 + (H div 256 mod 256) * 256 + (H div 65536 mod 256) * 65536
        + (H div 16777216 mod 256) * 16777216) * 2 ^ 32"
    by (simp add: be_value_def eval_nat_numeral int32_elem_def elem_def uint_byte_of
        del: of_int_numeral)
  then show ?thesis
    by (simp only: div_mod_bytes [OF assms(1,2)] div_mod_bytes [OF assms(3,4)])
qed

lemma trunc_quotient:
  assumes "0 \<le> m"
  shows "trunc (of_int m / VAL32) = m div 2 ^ 32"
proof -
  have "\<lfloor>real_of_int m / real_of_int 4294967296\<rfloor> = m div 4294967296"
    by (rule floor_divide_of_int_eq)
  moreover have "\<not> real_of_int m / 4294967296 < 0"
    using assms by simp
  ultimately show ?thesis
    by (simp add: trunc_def VAL32_def)
qed

lemma rem_VAL32_int:
  assumes "0 \<le> m"
  shows "rem_VAL32 (Num (of_int m)) = Num (of_int (m mod 2 ^ 32))"
proof -
  have "m mod 2 ^ 32 = m - 2 ^ 32 * (m div 2 ^ 32)"
    by (simp add: minus_mult_div_eq_mod)
  then have "real_of_int (m mod 2 ^ 32) = of_int m - VAL32 * of_int (m div 2 ^ 32)"
    by (simp add: VAL32_def)
  then show ?thesis
    by (simp only: rem_VAL32.simps trunc_quotient [OF assms])
qed

lemma ToInt32_quotient:
  assumes "0 \<le> m" and "m < 2 ^ 53"
  shows "ToInt32 (Num (of_int m / VAL32)) = m div 2 ^ 32"
    and "ToUint32 (Num (of_int (m div 2 ^ 32))) = m div 2 ^ 32"
proof -
  have "m div 2 ^ 32 \<le> (2 ^ 53 - 1) div 2 ^ 32"
    using assms(2) by (intro zdiv_mono1) simp_all
  then have hi: "m div 2 ^ 32 < 2 ^ 21"
    by simp
  have lo: "0 \<le> m div 2 ^ 32"
    using assms(1) by (simp add: pos_imp_zdiv_nonneg_iff)
  have small: "(m div 2 ^ 32) mod 2 ^ 32 = m div 2 ^ 32"
    using lo hi by (intro mod_pos_pos_trivial) simp_all
  show "ToUint32 (Num (of_int (m div 2 ^ 32))) = m div 2 ^ 32"
    by (simp only: ToUint32_of_int small)
  have "ToUint32 (Num (of_int m / VAL32)) = m div 2 ^ 32"
    by (simp only: ToUint32.simps trunc_quotient [OF assms(1)] small)
  then show "ToInt32 (Num (of_int m / VAL32)) = m div 2 ^ 32"
    using hi by (simp add: ToInt32_def Let_def del: ToUint32.simps)
qed

lemma decode_int:
  assumes "\<bar>n\<bar> < 2 ^ 53"
  shows "decode_args (ANumber (Num (of_int n)))
     = Inr (n < 0, Num (of_int (\<bar>n\<bar> div 2 ^ 32)), Num (of_int (\<bar>n\<bar> mod 2 ^ 32)))"
proof -
  let ?m = "\<bar>n\<bar>"
  have m: "0 \<le> ?m" by simp
  have abs: "js_abs (Num (of_int n)) = Num (of_int ?m)"
    by simp
  have "real_of_int ?m < 2 ^ 53"
    using assms by (metis of_int_less_iff of_int_numeral of_int_power)
  then have "\<not> VAL32 < of_int ?m / VAL32"
    by (simp add: VAL32_def)
  then have ok: "\<not> js_less (Num VAL32) (div_VAL32 (Num (of_int ?m)))"
    by simp
  have hi: "ToInt32 (div_VAL32 (Num (of_int ?m))) OR 0 = ?m div 2 ^ 32"
    using ToInt32_quotient(1) [OF m assms] by simp
  show ?thesis
    by (simp only: decode_args.simps abs Let_def ok hi rem_VAL32_int [OF m] if_False)
      (simp)
qed

lemma numeric_bytes:
  assumes "0 \<le> m" and "m < 2 ^ 53"
  shows "be_value (copy_bytes 0 (Num (of_int (m div 2 ^ 32))) (Num (of_int (m mod 2 ^ 32)))
      (new_Buffer mem 8)) 0 = m"
    and "length (copy_bytes 0 (Num (of_int (m div 2 ^ 32))) (Num (of_int (m mod 2 ^ 32)))
      (new_Buffer mem 8)) = 8"
proof -
  let ?hi = "Num (of_int (m div 2 ^ 32))" and ?lo = "Num (of_int (m mod 2 ^ 32))"
  have H: "ToUint32 ?hi = m div 2 ^ 32"
    using assms by (rule ToInt32_quotient(2))
  have L: "ToUint32 ?lo = m mod 2 ^ 32"
    by (simp only: ToUint32_of_int mod_mod_trivial)
  have "be_value (copy_bytes 0 ?hi ?lo (new_Buffer mem 8)) 0
      = ToUint32 ?hi * 2 ^ 32 + ToUint32 ?lo"
    unfolding copy_bytes_new using ToUint32_range [of ?hi] ToUint32_range [of ?lo]
    by (intro be_value_bytes) simp_all
  also have "\<dots> = m"
    by (simp only: H L) simp
  finally show "be_value (copy_bytes 0 ?hi ?lo (new_Buffer mem 8)) 0 = m" .
  show "length (copy_bytes 0 ?hi ?lo (new_Buffer mem 8)) = 8"
    by (simp only: copy_bytes_new) simp
qed

section \<open>Octet strings\<close>

lemma toOctetString_8:
  "toOctetString \<lparr>buffer = length h, offset = 0\<rparr> None (h @ [[b0, b1, b2, b3, b4, b5, b6, b7]])
     = HEX (unat b0) @ HEX (unat b1) @ HEX (unat b2) @ HEX (unat b3)
       @ HEX (unat b4) @ HEX (unat b5) @ HEX (unat b6) @ HEX (unat b7)"
  by (simp add: toOctetString_def elem_def upt8)

lemma byte_of_wrapped:
  "(word_of_int (x mod 2 ^ 32) :: byte) = word_of_int x"
  "(word_of_int (x mod 2 ^ 32 div 256) :: byte) = word_of_int (x div 256)"
  "(word_of_int (x mod 2 ^ 32 div 65536) :: byte) = word_of_int (x div 65536)"
  "(word_of_int (x mod 2 ^ 32 div 16777216) :: byte) = word_of_int (x div 16777216)"
proof -
  have "take_bit 8 (drop_bit n (take_bit 32 x)) = take_bit 8 (drop_bit n x)"
    if "n \<le> 24" for n
    using that by (simp add: drop_bit_take_bit min_absorb1)
  then have "(word_of_int (drop_bit n (take_bit 32 x)) :: byte) = word_of_int (drop_bit n x)"
    if "n \<le> 24" for n
    using that by (simp add: word_of_int_eq_iff)
  from this [of 0] this [of 8] this [of 16] this [of 24]
  show "(word_of_int (x mod 2 ^ 32) :: byte) = word_of_int x"
    "(word_of_int (x mod 2 ^ 32 div 256) :: byte) = word_of_int (x div 256)"
    "(word_of_int (x mod 2 ^ 32 div 65536) :: byte) = word_of_int (x div 65536)"
    "(word_of_int (x mod 2 ^ 32 div 16777216) :: byte) = word_of_int (x div 16777216)"
    by (simp_all add: take_bit_int_def drop_bit_int_def)
qed

section \<open>Hexadecimal strings\<close>

lemma hex_chars:
  "\<forall>c. is_hex c \<longrightarrow>
     the (digit16 c) < 16 \<and> hexchar (the (digit16 c)) = to_lower c
     \<and> \<not> is_ws c \<and> c \<noteq> CHR ''-'' \<and> c \<noteq> CHR ''+'' \<and> c \<noteq> CHR ''x'' \<and> c \<noteq> CHR ''X''"
  by code_simp

lemma hex_value_snoc: "hex_value (Z @ [c]) = 16 * hex_value Z + int (the (digit16 c))"
  by (simp add: hex_value_def)

lemma hex_value_bounds:
  "list_all is_hex Z \<Longrightarrow> 0 \<le> hex_value Z \<and> hex_value Z < 16 ^ length Z"
proof (induction Z rule: rev_induct)
  case Nil
  then show ?case by (simp add: hex_value_def)
next
  case (snoc c Z)
  then have IH: "0 \<le> hex_value Z" "hex_value Z < 16 ^ length Z" and c: "is_hex c"
    by simp_all
  have d: "int (the (digit16 c)) < 16"
    using hex_chars c by simp
  have "16 * hex_value Z + int (the (digit16 c)) < 16 * (hex_value Z + 1)"
    using d by simp
  also have "\<dots> \<le> 16 * 16 ^ length Z"
    using IH(2) by (intro mult_left_mono) simp_all
  finally show ?case
    using IH(1) by (simp add: hex_value_snoc)
qed

text \<open>\<open>parseInt\<close> of one to eight hexadecimal digits is their value.\<close>

lemma parseInt16_digits:
  assumes "list_all is_hex Z" and "Z \<noteq> []" and "length Z \<le> 8"
  shows "parseInt16 Z = Num (of_int (hex_value Z))"
    and "ToUint32 (parseInt16 Z) = hex_value Z"
proof -
  obtain c Z' where Z: "Z = c # Z'"
    using assms(2) by (cases Z) simp_all
  have c: "is_hex c" and Z': "list_all is_hex Z'"
    using assms(1) Z by simp_all
  have first: "\<not> is_ws c" "c \<noteq> CHR ''-''" "c \<noteq> CHR ''+''"
    using hex_chars c by simp_all
  have no_prefix: "take 2 Z \<noteq> ''0x''" "take 2 Z \<noteq> ''0X''"
  proof -
    have "c' \<noteq> CHR ''x'' \<and> c' \<noteq> CHR ''X''" if "is_hex c'" for c'
      using hex_chars that by simp
    then show "take 2 Z \<noteq> ''0x''" "take 2 Z \<noteq> ''0X''"
      using Z Z' by (cases Z'; auto)+
  qed
  have all: "takeWhile is_hex Z = Z"
    using assms(1) by (simp add: list_all_iff)
  have b: "0 \<le> hex_value Z" "hex_value Z < 16 ^ length Z"
    using hex_value_bounds [OF assms(1)] by simp_all
  have "(16::int) ^ length Z \<le> 16 ^ 8"
    using assms(3) by (intro power_increasing) simp_all
  then have small: "hex_value Z < 2 ^ 32"
    using b(2) by simp
  then have r: "round53 (hex_value Z) = hex_value Z"
    by (intro round53_exact) simp
  have "to_double 1 (hex_value Z) = Num (of_int (hex_value Z))"
    using small by (simp add: to_double_def r)
  moreover have "parseInt16 Z = to_double 1 (hex_value Z)"
  proof -
    have s1: "dropWhile is_ws Z = Z"
      using first(1) Z by simp
    have sign: "(if Z \<noteq> [] \<and> hd Z = CHR ''-'' then - 1 else 1) = (1::int)"
      using first(2) Z by simp
    have s2: "(if Z \<noteq> [] \<and> (hd Z = CHR ''+'' \<or> hd Z = CHR ''-'') then tl Z else Z) = Z"
      using first(2,3) Z by simp
    have s3: "(if take 2 Z = ''0x'' \<or> take 2 Z = ''0X'' then drop 2 Z else Z) = Z"
      using no_prefix by simp
    show ?thesis
      by (simp only: parseInt16_def Let_def s1 sign s2 s3 all) (simp add: assms(2))
  qed
  ultimately show p: "parseInt16 Z = Num (of_int (hex_value Z))"
    by simp
  have "hex_value Z mod 2 ^ 32 = hex_value Z"
    using b(1) small by (intro mod_pos_pos_trivial) simp_all
  then show "ToUint32 (parseInt16 Z) = hex_value Z"
    by (simp only: p ToUint32_of_int)
qed

lemma HEX_pair:
  assumes "a < 16" and "b < 16"
  shows "HEX (16 * a + b) = [hexchar a, hexchar b]"
proof (cases "a = 0")
  case True
  have "toString16 b = [hexchar b]"
    using assms(2) by (subst toString16.simps) simp
  moreover have "hexchar 0 = CHR ''0''"
    by (simp add: hexchar_def)
  ultimately show ?thesis
    using True assms(2) by (simp add: HEX_def)
next
  case False
  then have big: "\<not> 16 * a + b < 16" by simp
  have "toString16 a = [hexchar a]"
    using assms(1) by (subst toString16.simps) simp
  moreover have "(16 * a + b) div 16 = a" "(16 * a + b) mod 16 = b"
    using assms(2) by simp_all
  ultimately have "toString16 (16 * a + b) = [hexchar a, hexchar b]"
    using big by (subst toString16.simps) simp
  then show ?thesis
    using big by (simp add: HEX_def)
qed

lemma HEX_digits:
  assumes "is_hex c" and "is_hex c'"
  shows "HEX (nat (16 * int (the (digit16 c)) + int (the (digit16 c')))) = [to_lower c, to_lower c']"
proof -
  have d: "the (digit16 c) < 16" "the (digit16 c') < 16"
    and l: "hexchar (the (digit16 c)) = to_lower c" "hexchar (the (digit16 c')) = to_lower c'"
    using hex_chars assms by simp_all
  have "nat (16 * int (the (digit16 c)) + int (the (digit16 c')))
      = 16 * the (digit16 c) + the (digit16 c')"
    by (simp add: nat_add_distrib nat_mult_distrib)
  then show ?thesis
    by (simp only: HEX_pair [OF d] l)
qed

lemma shift_byte:
  fixes q r :: int
  assumes "0 \<le> r" and "r < 256"
  shows "(q * 256 + r) div 256 = q" and "(q * 256 + r) mod 256 = r"
  using assms by simp_all

lemma unat_byte_of: "unat (word_of_int x :: byte) = nat (x mod 256)"
  by (simp add: unat_eq_nat_uint uint_byte_of)

text \<open>The four bytes cut from the value of eight hexadecimal digits, as octets.\<close>

lemma octets_of_digits:
  assumes "list_all is_hex [c1, c2, c3, c4, c5, c6, c7, c8]"
  shows "HEX (unat (word_of_int (hex_value [c1, c2, c3, c4, c5, c6, c7, c8] div 16777216) :: byte))
      @ HEX (unat (word_of_int (hex_value [c1, c2, c3, c4, c5, c6, c7, c8] div 65536) :: byte))
      @ HEX (unat (word_of_int (hex_value [c1, c2, c3, c4, c5, c6, c7, c8] div 256) :: byte))
      @ HEX (unat (word_of_int (hex_value [c1, c2, c3, c4, c5, c6, c7, c8]) :: byte))
    = map to_lower [c1, c2, c3, c4, c5, c6, c7, c8]"
proof -
  let ?d = "\<lambda>c. int (the (digit16 c))"
  let ?p = "\<lambda>c c'. 16 * ?d c + ?d c'"
  let ?V = "hex_value [c1, c2, c3, c4, c5, c6, c7, c8]"
  have d: "0 \<le> ?d c \<and> ?d c < 16" if "is_hex c" for c
    using hex_chars that by simp
  have p: "0 \<le> ?p c c' \<and> ?p c c' < 256" if "is_hex c" and "is_hex c'" for c c'
    using d [OF that(1)] d [OF that(2)] by simp
  have hex: "is_hex c1" "is_hex c2" "is_hex c3" "is_hex c4" "is_hex c5" "is_hex c6"
    "is_hex c7" "is_hex c8"
    using assms by simp_all
  have V: "?V = ((?p c1 c2 * 256 + ?p c3 c4) * 256 + ?p c5 c6) * 256 + ?p c7 c8"
    by (simp add: hex_value_def)
  have b4: "?V mod 256 = ?p c7 c8" and v1: "?V div 256 = (?p c1 c2 * 256 + ?p c3 c4) * 256 + ?p c5 c6"
    unfolding V using p [OF hex(7,8)] by (simp_all only: shift_byte)
  have "?V div 65536 = ?V div 256 div 256"
    by (simp only: div256_twice)
  then have v2: "?V div 65536 = ?p c1 c2 * 256 + ?p c3 c4" and b3: "?V div 256 mod 256 = ?p c5 c6"
    unfolding v1 using p [OF hex(5,6)] by (simp_all only: shift_byte)
  have "?V div 16777216 = ?V div 65536 div 256"
    by (simp only: div256_twice)
  then have v3: "?V div 16777216 = ?p c1 c2" and b2: "?V div 65536 mod 256 = ?p c3 c4"
    unfolding v2 using p [OF hex(3,4)] by (simp_all only: shift_byte)
  have b1: "?V div 16777216 mod 256 = ?p c1 c2"
    unfolding v3 using p [OF hex(1,2)] by (intro mod_pos_pos_trivial) simp_all
  show ?thesis
    by (simp only: unat_byte_of b1 b2 b3 b4 HEX_digits hex list.map append.simps)
qed

lemma list8:
  assumes "length t = 8"
  obtains c1 c2 c3 c4 c5 c6 c7 c8 where "t = [c1, c2, c3, c4, c5, c6, c7, c8 :: 'a]"
proof -
  from assms have "\<exists>c1 c2 c3 c4 c5 c6 c7 c8. t = [c1, c2, c3, c4, c5, c6, c7, c8]"
    by (simp add: eval_nat_numeral length_Suc_conv) blast
  then show ?thesis
    using that by blast
qed

section \<open>Runs of the model\<close>

text \<open>
  Three runs: \<open>new Int64(-1)\<close> holds \<open>ff ff ff ff ff ff ff ff\<close> and reads back as \<open>-1\<close>;
  \<open>new Int64('7fffffffffffffff')\<close> reads back as positive infinity; a view over a
  caller's Buffer \<open>00 00 00 00 00 00 00 2a\<close> reads 42, and after \<open>setValue(7)\<close> through
  a second view of the same Buffer the first view reads 7.
\<close>

lemma example_minus_one:
  "Int64 (Value (ANumber (Num (- 1)))) zeroed []
     = Inr (\<lparr>buffer = 0, offset = 0\<rparr>, [[255, 255, 255, 255, 255, 255, 255, 255]])
   \<and> toOctetString \<lparr>buffer = 0, offset = 0\<rparr> None [[255, 255, 255, 255, 255, 255, 255, 255]]
     = ''ffffffffffffffff''
   \<and> valueOf \<lparr>buffer = 0, offset = 0\<rparr> [[255, 255, 255, 255, 255, 255, 255, 255]] = Num (- 1)"
  by code_simp

lemma example_max_int64:
  "Int64 (Value (AString ''7fffffffffffffff'')) zeroed []
     = Inr (\<lparr>buffer = 0, offset = 0\<rparr>, [[127, 255, 255, 255, 255, 255, 255, 255]])
   \<and> valueOf \<lparr>buffer = 0, offset = 0\<rparr> [[127, 255, 255, 255, 255, 255, 255, 255]] = PosInf"
  by code_simp

lemma example_shared_buffer:
  "Int64 (View 0 None) zeroed [[0, 0, 0, 0, 0, 0, 0, 42]]
     = Inr (\<lparr>buffer = 0, offset = 0\<rparr>, [[0, 0, 0, 0, 0, 0, 0, 42]])
   \<and> valueOf \<lparr>buffer = 0, offset = 0\<rparr> [[0, 0, 0, 0, 0, 0, 0, 42]] = Num 42
   \<and> setValue \<lparr>buffer = 0, offset = 0\<rparr> (ANumber (Num 7)) [[0, 0, 0, 0, 0, 0, 0, 42]]
     = Inr [[0, 0, 0, 0, 0, 0, 0, 7]]
   \<and> valueOf \<lparr>buffer = 0, offset = 0\<rparr> [[0, 0, 0, 0, 0, 0, 0, 7]] = Num 7"
  by code_simp

section \<open>Properties of Int64\<close>

text \<open>
  C1, as amended. For every integer \<open>n\<close> with \<open>|n| < 2^53\<close>, constructing an \<open>Int64\<close> from
  the number \<open>n\<close> succeeds, and \<open>valueOf\<close> of the object made returns \<open>n\<close>.
\<close>

theorem integer_roundtrip:
  assumes "\<bar>n\<bar> < 2 ^ 53"
  shows "\<exists>this h'. Int64 (Value (ANumber (Num (of_int n)))) mem h = Inr (this, h')
     \<and> valueOf this h' = Num (of_int n)"
proof -
  let ?m = "\<bar>n\<bar>"
  let ?B = "copy_bytes 0 (Num (of_int (?m div 2 ^ 32))) (Num (of_int (?m mod 2 ^ 32)))
      (new_Buffer mem 8)"
  let ?obj = "\<lparr>buffer = length h, offset = 0\<rparr>"
  have m: "0 \<le> ?m" by simp
  have Y: "be_value ?B 0 = ?m" and len: "length ?B = 8"
    using numeric_bytes [OF m assms] by simp_all
  have made: "Int64 (Value (ANumber (Num (of_int n)))) mem h
      = Inr (?obj, h @ [if n < 0 then scomp_buffer 0 ?B else ?B])"
    using decode_int [OF assms] by (rule Int64_Value)
  have "valueOf ?obj (h @ [if n < 0 then scomp_buffer 0 ?B else ?B]) = Num (of_int n)"
  proof (cases "n < 0")
    case False
    then have "?m = n" by simp
    then have "be_value ?B 0 = n" and "n < 2 ^ 53"
      using Y assms by simp_all
    then show ?thesis
      using False by (simp add: valueOf_eq sign_flag_offset_0 Let_def)
  next
    case True
    then have mn: "?m = - n" and pos: "0 < ?m" by simp_all
    have "be_value (scomp_buffer 0 ?B) 0 = (if be_value ?B 0 = 0 then 0 else 2 ^ 64 - be_value ?B 0)"
      using len by (intro be_value_scomp) simp
    then have "be_value (scomp_buffer 0 ?B) 0 = 2 ^ 64 + n"
      using pos unfolding Y by (simp add: mn)
    then show ?thesis
      using True assms by (simp add: valueOf_eq sign_flag_offset_0 Let_def)
  qed
  then show ?thesis
    using made by blast
qed

theorem integer_roundtrip_witness:
  "\<bar>- 9007199254740991 :: int\<bar> < 2 ^ 53 \<and>
   Int64 (Value (ANumber (Num (- 9007199254740991)))) zeroed []
     = Inr (\<lparr>buffer = 0, offset = 0\<rparr>, [[0xff, 0xe0, 0, 0, 0, 0, 0, 1]]) \<and>
   valueOf \<lparr>buffer = 0, offset = 0\<rparr> [[0xff, 0xe0, 0, 0, 0, 0, 0, 1]] = Num (- 9007199254740991)"
proof -
  have small: "\<bar>- 9007199254740991 :: int\<bar> < 2 ^ 53"
    by simp
  have made: "Int64 (Value (ANumber (Num (- 9007199254740991)))) zeroed []
      = Inr (\<lparr>buffer = 0, offset = 0\<rparr>, [[0xff, 0xe0, 0, 0, 0, 0, 0, 1]])"
    by code_simp
  show ?thesis
    using small made integer_roundtrip [OF small, of zeroed "[]"] by simp
qed

text \<open>
  C1 as stated fails at a number that is not an integer: \<open>0.5\<close> is below \<open>2^53\<close>,
  constructing from it stores the bytes of 0, and \<open>valueOf\<close> returns 0.
\<close>

theorem fraction_roundtrip_counterexample:
  "\<bar>1 / 2 :: real\<bar> < 2 ^ 53 \<and>
   Int64 (Value (ANumber (Num (1 / 2)))) zeroed []
     = Inr (\<lparr>buffer = 0, offset = 0\<rparr>, [[0, 0, 0, 0, 0, 0, 0, 0]]) \<and>
   valueOf \<lparr>buffer = 0, offset = 0\<rparr> [[0, 0, 0, 0, 0, 0, 0, 0]] = Num 0 \<and>
   Num 0 \<noteq> Num (1 / 2)"
proof -
  have "Int64 (Value (ANumber (Num (1 / 2)))) zeroed []
      = Inr (\<lparr>buffer = 0, offset = 0\<rparr>, [[0, 0, 0, 0, 0, 0, 0, 0]])"
    by code_simp
  moreover have "valueOf \<lparr>buffer = 0, offset = 0\<rparr> [[0, 0, 0, 0, 0, 0, 0, 0]] = Num 0"
    by code_simp
  ultimately show ?thesis
    by simp
qed

text \<open>
  C2. For an object at offset 0 the claim holds (\<open>valueOf_offset_0\<close> below). For a view
  at another offset it fails, by the sign read at index 0: in a Buffer of sixteen bytes,
  the object at offset 8 holds \<open>00 20 00 00 00 00 00 00\<close>, the non-negative value \<open>2^53\<close>;
  with \<open>0x80\<close> at index 0, \<open>valueOf\<close> returns negative infinity.
\<close>

theorem valueOf_infinity_sign_at_offset:
  "toOctetString \<lparr>buffer = 0, offset = 8\<rparr> None
      [[0x80, 0, 0, 0, 0, 0, 0, 0, 0x00, 0x20, 0, 0, 0, 0, 0, 0]] = ''0020000000000000''
   \<and> valueOf \<lparr>buffer = 0, offset = 8\<rparr>
      [[0x80, 0, 0, 0, 0, 0, 0, 0, 0x00, 0x20, 0, 0, 0, 0, 0, 0]] = NegInf"
  by code_simp

text \<open>
  What holds of \<open>valueOf\<close> at offset 0, for any bytes: with \<open>Y\<close> the unsigned value of the
  eight bytes, the stored number is \<open>Y\<close> when \<open>Y < 2^63\<close> and \<open>Y - 2^64\<close> otherwise;
  \<open>valueOf\<close> returns it when its magnitude is below \<open>2^53\<close>, and the infinity of its sign
  otherwise.
\<close>

lemma valueOf_offset_0:
  "valueOf \<lparr>buffer = r, offset = 0\<rparr> h =
     (let Y = be_value (h ! r) 0
      in if Y < 2 ^ 53 then Num (of_int Y)
         else if Y < 2 ^ 63 then PosInf
         else if Y \<le> 2 ^ 64 - 2 ^ 53 then NegInf
         else Num (of_int (Y - 2 ^ 64)))"
  using be_value_bounds [of "h ! r" 0]
  by (simp add: valueOf_eq sign_flag_offset_0 Let_def)

lemma raw_halves_infinity:
  "Int64 (Value (ARaw (Num 0x00200000) (Num 0x00000000))) zeroed []
     = Inr (\<lparr>buffer = 0, offset = 0\<rparr>, [[0x00, 0x20, 0, 0, 0, 0, 0, 0]])
   \<and> valueOf \<lparr>buffer = 0, offset = 0\<rparr> [[0x00, 0x20, 0, 0, 0, 0, 0, 0]] = PosInf"
  by code_simp

text \<open>
  C3. Constructing from a finite number \<open>a\<close> raises exactly when \<open>abs(a) / 2^32\<close> is
  greater than \<open>2^32\<close>, and what it raises is a RangeError; the same holds for
  \<open>setValue\<close> on an existing object. For the numbers that are not finite:
  an infinity, whose high half is infinite, raises the RangeError, and NaN, whose high
  half is NaN and exceeds nothing, raises no error.
\<close>

theorem numeric_construction_range_error:
  "(Int64 (Value (ANumber (Num a))) mem h = Inl RangeError) = (2 ^ 32 < \<bar>a\<bar> / 2 ^ 32)
   \<and> isl (Int64 (Value (ANumber (Num a))) mem h) = (2 ^ 32 < \<bar>a\<bar> / 2 ^ 32)
   \<and> (setValue this (ANumber (Num a)) h = Inl RangeError) = (2 ^ 32 < \<bar>a\<bar> / 2 ^ 32)
   \<and> isl (setValue this (ANumber (Num a)) h) = (2 ^ 32 < \<bar>a\<bar> / 2 ^ 32)
   \<and> Int64 (Value (ANumber PosInf)) mem h = Inl RangeError
   \<and> Int64 (Value (ANumber NegInf)) mem h = Inl RangeError
   \<and> \<not> isl (Int64 (Value (ANumber NaN)) mem h)"
proof -
  let ?P = "2 ^ 32 < \<bar>a\<bar> / 2 ^ 32"
  have fin:
    "(Int64 (Value (ANumber (Num a))) mem h = Inl RangeError) = ?P
     \<and> isl (Int64 (Value (ANumber (Num a))) mem h) = ?P
     \<and> (setValue this (ANumber (Num a)) h = Inl RangeError) = ?P
     \<and> isl (setValue this (ANumber (Num a)) h) = ?P"
  proof (cases ?P)
    case True
    then have "decode_args (ANumber (Num a)) = Inl RangeError"
      by (simp add: VAL32_def Let_def)
    then show ?thesis
      using True by (simp add: Int64_def setValue_def del: decode_args.simps)
  next
    case False
    then obtain n hi lo where "decode_args (ANumber (Num a)) = Inr (n, hi, lo)"
      by (simp add: VAL32_def Let_def)
    then show ?thesis
      using False by (simp add: Int64_def setValue_def Let_def del: decode_args.simps)
  qed
  have inf: "Int64 (Value (ANumber PosInf)) mem h = Inl RangeError"
    "Int64 (Value (ANumber NegInf)) mem h = Inl RangeError"
    by (simp_all add: Int64_Value_error Let_def)
  have "\<exists>n hi lo. decode_args (ANumber NaN) = Inr (n, hi, lo)"
    by (auto simp: Let_def)
  then have nan: "\<not> isl (Int64 (Value (ANumber NaN)) mem h)"
    by (auto simp: Int64_Value simp del: decode_args.simps)
  from fin inf nan show ?thesis
    by blast
qed

theorem numeric_construction_range_error_witness:
  "Int64 (Value (ANumber (Num (2 ^ 64 + 4096)))) zeroed [] = Inl RangeError
   \<and> \<not> isl (Int64 (Value (ANumber (Num (2 ^ 64)))) zeroed [])
   \<and> \<not> isl (Int64 (Value (ANumber (Num (- 5)))) zeroed [])"
  using numeric_construction_range_error [of "2 ^ 64 + 4096" zeroed "[]"]
    numeric_construction_range_error [of "2 ^ 64" zeroed "[]"]
    numeric_construction_range_error [of "- 5" zeroed "[]"]
  by simp

text \<open>
  C4. \<open>_2scomp\<close> is its own inverse: applied twice to any object, whatever its Buffer
  holds (8 bytes or any other number) and whatever its offset, it leaves the heap, and
  so every byte, as it was.
\<close>

theorem Int64_2scomp_involution: "Int64_2scomp this (Int64_2scomp this h) = h"
proof (cases "buffer this < length h")
  case True
  then show ?thesis
    by (simp add: Int64_2scomp_def scomp_buffer_twice)
next
  case False
  then show ?thesis
    by (simp add: Int64_2scomp_def list_update_beyond)
qed

theorem Int64_2scomp_involution_witness:
  "Int64_2scomp \<lparr>buffer = 0, offset = 0\<rparr> [[0, 0, 0, 0, 0, 0, 1, 0]] = [[255, 255, 255, 255, 255, 255, 255, 0]]
   \<and> Int64_2scomp \<lparr>buffer = 0, offset = 0\<rparr>
        (Int64_2scomp \<lparr>buffer = 0, offset = 0\<rparr> [[0, 0, 0, 0, 0, 0, 1, 0]]) = [[0, 0, 0, 0, 0, 0, 1, 0]]"
proof -
  have "Int64_2scomp \<lparr>buffer = 0, offset = 0\<rparr> [[0, 0, 0, 0, 0, 0, 1, 0]]
      = [[255, 255, 255, 255, 255, 255, 255, 0]]"
    by code_simp
  then show ?thesis
    using Int64_2scomp_involution [of "\<lparr>buffer = 0, offset = 0\<rparr>" "[[0, 0, 0, 0, 0, 0, 1, 0]]"]
    by simp
qed

text \<open>
  C5. Let \<open>s\<close> be 16 hexadecimal digits, in either case, and \<open>p\<close> empty or \<open>0x\<close>.
  Constructing from \<open>p\<close> followed by \<open>s\<close> succeeds, and \<open>toOctetString\<close> of the object made,
  without a separator, is \<open>s\<close> with each character in lower case.
\<close>

theorem hex_string_roundtrip:
  assumes "length s = 16" and "list_all is_hex s" and "p = '''' \<or> p = ''0x''"
  shows "\<exists>this h'. Int64 (Value (AString (p @ s))) mem h = Inr (this, h')
     \<and> toOctetString this None h' = map to_lower s"
proof -
  let ?hi = "take 8 s" and ?lo = "drop 8 s"
  have hex1: "is_hex (s ! 1)"
    using assms(1,2) by (simp add: list_all_length)
  then have "s ! 1 \<noteq> CHR ''x''"
    using hex_chars by blast
  moreover have "take 2 s ! 1 = s ! 1"
    by simp
  ultimately have "take 2 s \<noteq> ''0x''"
    by (metis nth_Cons_0 nth_Cons_Suc One_nat_def)
  then have strip: "replace_0x (p @ s) = s"
    using assms(3) by (auto simp: replace_0x_def)
  have len: "length ?hi = 8" "length ?lo = 8"
    using assms(1) by simp_all
  have hex: "list_all is_hex ?hi" "list_all is_hex ?lo"
    using assms(2) by (auto simp: list_all_iff dest: in_set_takeD in_set_dropD)
  have ne: "?hi \<noteq> []" "?lo \<noteq> []"
    using len by auto
  have H: "ToUint32 (parseInt16 ?hi) = hex_value ?hi"
    using hex(1) ne(1) len(1) by (intro parseInt16_digits(2)) simp_all
  have L: "ToUint32 (parseInt16 ?lo) = hex_value ?lo"
    using hex(2) ne(2) len(2) by (intro parseInt16_digits(2)) simp_all
  have "decode_args (AString (p @ s)) = Inr (False, parseInt16 ?hi, parseInt16 ?lo)"
    using assms(1) by (simp add: strip substr_last8_def Let_def)
  then have made: "Int64 (Value (AString (p @ s))) mem h
      = Inr (\<lparr>buffer = length h, offset = 0\<rparr>,
          h @ [copy_bytes 0 (parseInt16 ?hi) (parseInt16 ?lo) (new_Buffer mem 8)])"
    by (simp only: Int64_Value if_False)
  obtain c1 c2 c3 c4 c5 c6 c7 c8 where hi: "?hi = [c1, c2, c3, c4, c5, c6, c7, c8]"
    using len(1) by (rule list8)
  obtain e1 e2 e3 e4 e5 e6 e7 e8 where lo: "?lo = [e1, e2, e3, e4, e5, e6, e7, e8]"
    using len(2) by (rule list8)
  have "toOctetString \<lparr>buffer = length h, offset = 0\<rparr> None
      (h @ [copy_bytes 0 (parseInt16 ?hi) (parseInt16 ?lo) (new_Buffer mem 8)])
      = map to_lower ?hi @ map to_lower ?lo"
    unfolding copy_bytes_new toOctetString_8 H L
    using octets_of_digits [of c1 c2 c3 c4 c5 c6 c7 c8] octets_of_digits [of e1 e2 e3 e4 e5 e6 e7 e8]
      hex
    unfolding hi lo by simp
  also have "\<dots> = map to_lower s"
    by (simp only: map_append [symmetric] append_take_drop_id)
  finally show ?thesis
    using made by blast
qed

theorem hex_string_roundtrip_witness:
  "length ''7FfffffffffffABC'' = 16 \<and> list_all is_hex ''7FfffffffffffABC''
   \<and> Int64 (Value (AString (''0x'' @ ''7FfffffffffffABC''))) zeroed []
     = Inr (\<lparr>buffer = 0, offset = 0\<rparr>, [[0x7f, 0xff, 0xff, 0xff, 0xff, 0xff, 0xfa, 0xbc]])
   \<and> toOctetString \<lparr>buffer = 0, offset = 0\<rparr> None [[0x7f, 0xff, 0xff, 0xff, 0xff, 0xff, 0xfa, 0xbc]]
     = map to_lower ''7FfffffffffffABC''
   \<and> map to_lower ''7FfffffffffffABC'' = ''7ffffffffffffabc''"
proof -
  have len: "length ''7FfffffffffffABC'' = 16"
    by simp
  have hex: "list_all is_hex ''7FfffffffffffABC''"
    by code_simp
  have made: "Int64 (Value (AString (''0x'' @ ''7FfffffffffffABC''))) zeroed []
      = Inr (\<lparr>buffer = 0, offset = 0\<rparr>, [[0x7f, 0xff, 0xff, 0xff, 0xff, 0xff, 0xfa, 0xbc]])"
    by code_simp
  have low: "map to_lower ''7FfffffffffffABC'' = ''7ffffffffffffabc''"
    by code_simp
  from hex_string_roundtrip [OF len hex, of "''0x''" zeroed "[]"]
  obtain this h' where "Int64 (Value (AString (''0x'' @ ''7FfffffffffffABC''))) zeroed []
      = Inr (this, h')" and "toOctetString this None h' = map to_lower ''7FfffffffffffABC''"
    by blast
  then have "toOctetString \<lparr>buffer = 0, offset = 0\<rparr> None
      [[0x7f, 0xff, 0xff, 0xff, 0xff, 0xff, 0xfa, 0xbc]] = map to_lower ''7FfffffffffffABC''"
    unfolding made by simp
  then show ?thesis
    using len hex made low by (simp only: simp_thms)
qed

text \<open>
  C6. \<open>valueOf\<close> reads the sign at index 0 of the Buffer (\<open>b[0] & 0x80\<close>), not
  at the object's own first byte \<open>b[o]\<close>, which every other access of the file uses. In a
  Buffer of nine bytes, the object at offset 1 holds \<open>00 00 00 00 00 00 00 01\<close>, the
  number 1, whose own most significant byte (index 1) has a clear high bit: with \<open>0x80\<close>
  at index 0, a byte that is not part of the value, \<open>valueOf\<close> takes the value as negative
  and returns negative infinity; with 0 there it returns 1.
\<close>

theorem valueOf_sign_from_index_0:
  "toOctetString \<lparr>buffer = 0, offset = 1\<rparr> None [[0x80, 0, 0, 0, 0, 0, 0, 0, 1]] = ''0000000000000001''
   \<and> valueOf \<lparr>buffer = 0, offset = 1\<rparr> [[0x80, 0, 0, 0, 0, 0, 0, 0, 1]] = NegInf
   \<and> valueOf \<lparr>buffer = 0, offset = 1\<rparr> [[0x00, 0, 0, 0, 0, 0, 0, 0, 1]] = Num 1"
  by code_simp

text \<open>
  C7. Constructing a view never raises, whatever the size of the Buffer (none is looked
  at): the result is an object that refers to the very Buffer given, at the given offset
  or at 0, and the heap is the one before the call, so nothing was allocated, copied or
  written.
\<close>

theorem view_construction:
  "Int64 (View a1 a2) mem h =
     Inr (\<lparr>buffer = a1, offset = (case a2 of None \<Rightarrow> 0 | Some k \<Rightarrow> k)\<rparr>, h)"
  by (simp add: Int64_def)

theorem view_construction_witness:
  "Int64 (View 0 (Some 5)) zeroed [[1, 2, 3]] = Inr (\<lparr>buffer = 0, offset = 5\<rparr>, [[1, 2, 3]])
   \<and> Int64 (View 0 None) zeroed [[]] = Inr (\<lparr>buffer = 0, offset = 0\<rparr>, [[]])"
  using view_construction [of 0 "Some 5" zeroed "[[1, 2, 3]]"]
    view_construction [of 0 None zeroed "[[]]"]
  by simp

text \<open>
  C8. Constructing from the raw halves \<open>hi\<close> and \<open>lo\<close>, two integers, succeeds and makes a
  Buffer of eight bytes: indices 0 to 3 hold \<open>hi div 2^24\<close>, \<open>hi div 2^16\<close>, \<open>hi div 2^8\<close>
  and \<open>hi\<close>, each modulo 256, and indices 4 to 7 hold the same of \<open>lo\<close>. For a half in the
  range of 32 bits these are its four bytes, most significant first. The octet string is
  the two hexadecimal digits of each of these bytes in this order, \<open>hi\<close>'s before \<open>lo\<close>'s.
\<close>

theorem raw_halves_layout:
  "Int64 (Value (ARaw (Num (of_int hi)) (Num (of_int lo)))) mem h
     = Inr (\<lparr>buffer = length h, offset = 0\<rparr>,
            h @ [[word_of_int (hi div 2 ^ 24), word_of_int (hi div 2 ^ 16),
                  word_of_int (hi div 2 ^ 8), word_of_int hi,
                  word_of_int (lo div 2 ^ 24), word_of_int (lo div 2 ^ 16),
                  word_of_int (lo div 2 ^ 8), word_of_int lo]])
   \<and> toOctetString \<lparr>buffer = length h, offset = 0\<rparr> None
        (h @ [[word_of_int (hi div 2 ^ 24), word_of_int (hi div 2 ^ 16),
               word_of_int (hi div 2 ^ 8), word_of_int hi,
               word_of_int (lo div 2 ^ 24), word_of_int (lo div 2 ^ 16),
               word_of_int (lo div 2 ^ 8), word_of_int lo]])
     = HEX (nat (hi div 2 ^ 24 mod 256)) @ HEX (nat (hi div 2 ^ 16 mod 256))
       @ HEX (nat (hi div 2 ^ 8 mod 256)) @ HEX (nat (hi mod 256))
       @ HEX (nat (lo div 2 ^ 24 mod 256)) @ HEX (nat (lo div 2 ^ 16 mod 256))
       @ HEX (nat (lo div 2 ^ 8 mod 256)) @ HEX (nat (lo mod 256))"
proof -
  have "decode_args (ARaw (Num (of_int hi)) (Num (of_int lo)))
      = Inr (False, Num (of_int hi), Num (of_int lo))"
    by simp
  then have "Int64 (Value (ARaw (Num (of_int hi)) (Num (of_int lo)))) mem h
      = Inr (\<lparr>buffer = length h, offset = 0\<rparr>,
          h @ [copy_bytes 0 (Num (of_int hi)) (Num (of_int lo)) (new_Buffer mem 8)])"
    by (simp only: Int64_Value if_False)
  moreover have "copy_bytes 0 (Num (of_int hi)) (Num (of_int lo)) (new_Buffer mem 8)
      = [word_of_int (hi div 2 ^ 24), word_of_int (hi div 2 ^ 16),
         word_of_int (hi div 2 ^ 8), word_of_int hi,
         word_of_int (lo div 2 ^ 24), word_of_int (lo div 2 ^ 16),
         word_of_int (lo div 2 ^ 8), word_of_int lo]"
    by (simp only: copy_bytes_new ToUint32_of_int byte_of_wrapped) simp
  moreover have "unat (word_of_int x :: byte) = nat (x mod 256)" for x
    by (simp add: unat_eq_nat_uint uint_byte_of)
  ultimately show ?thesis
    by (simp only: toOctetString_8) (simp)?
qed

theorem raw_halves_layout_witness:
  "Int64 (Value (ARaw (Num 0x01020304) (Num 0xa0b0c0d0))) zeroed []
     = Inr (\<lparr>buffer = 0, offset = 0\<rparr>, [[0x01, 0x02, 0x03, 0x04, 0xa0, 0xb0, 0xc0, 0xd0]])
   \<and> toOctetString \<lparr>buffer = 0, offset = 0\<rparr> None [[0x01, 0x02, 0x03, 0x04, 0xa0, 0xb0, 0xc0, 0xd0]]
     = ''01020304a0b0c0d0''"
proof -
  have made: "Int64 (Value (ARaw (Num 0x01020304) (Num 0xa0b0c0d0))) zeroed []
      = Inr (\<lparr>buffer = 0, offset = 0\<rparr>, [[0x01, 0x02, 0x03, 0x04, 0xa0, 0xb0, 0xc0, 0xd0]])"
    by code_simp
  have octets: "toOctetString \<lparr>buffer = 0, offset = 0\<rparr> None
      [[0x01, 0x02, 0x03, 0x04, 0xa0, 0xb0, 0xc0, 0xd0]] = ''01020304a0b0c0d0''"
    by code_simp
  show ?thesis
    using raw_halves_layout [of "0x01020304" "0xa0b0c0d0" zeroed "[]"] made octets
    by (simp only: simp_thms)
qed

text \<open>
  C9. A successful \<open>setValue\<close> changes nothing but the bytes at \<open>offset\<close> to \<open>offset + 7\<close> of
  the object's own Buffer: the heap keeps its Buffers, every other Buffer is as it was,
  the object's Buffer keeps its length, and each of its bytes below \<open>offset\<close> or from
  \<open>offset + 8\<close> on is as it was.
\<close>

theorem setValue_frame:
  assumes "setValue this a h = Inr h'"
  shows "length h' = length h \<and>
    (\<forall>r. r \<noteq> buffer this \<longrightarrow> h' ! r = h ! r) \<and>
    length (h' ! buffer this) = length (h ! buffer this) \<and>
    (\<forall>j. j < offset this \<or> offset this + 8 \<le> j \<longrightarrow>
       (h' ! buffer this) ! j = (h ! buffer this) ! j)"
proof -
  let ?r = "buffer this" and ?k = "offset this"
  obtain negate hi lo where dec: "decode_args a = Inr (negate, hi, lo)"
    using assms by (auto simp: setValue_def split: sum.splits)
  let ?b1 = "copy_bytes ?k hi lo (h ! ?r)"
  let ?b2 = "if negate then scomp_buffer ?k ?b1 else ?b1"
  have h': "h' = h[?r := ?b2]"
  proof (cases "?r < length h")
    case True
    then show ?thesis
      using assms dec by (auto simp: setValue_def Int64_2scomp_def)
  next
    case False
    then show ?thesis
      using assms dec by (auto simp: setValue_def Int64_2scomp_def list_update_beyond)
  qed
  have len: "length ?b2 = length (h ! ?r)"
    using copy_bytes_frame [of ?k hi lo "h ! ?r"] scomp_buffer_frame [of ?k ?b1] by simp
  have nth: "?b2 ! j = (h ! ?r) ! j" if "j < ?k \<or> ?k + 8 \<le> j" for j
    using that copy_bytes_frame [of ?k hi lo "h ! ?r" j] scomp_buffer_frame [of ?k ?b1 j]
    by auto
  show ?thesis
    unfolding h' using len nth by (rule heap_update_frame)
qed

theorem setValue_frame_witness:
  "setValue \<lparr>buffer = 0, offset = 1\<rparr> (ANumber (Num (- 2))) [[1, 2, 3, 4, 5, 6, 7, 8, 9, 10], [7]]
     = Inr [[1, 255, 255, 255, 255, 255, 255, 255, 254, 10], [7]]
   \<and> length [[1, 255, 255, 255, 255, 255, 255, 255, 254, 10 :: byte], [7]]
     = length [[1, 2, 3, 4, 5, 6, 7, 8, 9, 10 :: byte], [7]]
   \<and> [[1, 255, 255, 255, 255, 255, 255, 255, 254, 10 :: byte], [7]] ! 0 ! 9
     = [[1, 2, 3, 4, 5, 6, 7, 8, 9, 10 :: byte], [7]] ! 0 ! 9"
proof -
  have run: "setValue \<lparr>buffer = 0, offset = 1\<rparr> (ANumber (Num (- 2)))
      [[1, 2, 3, 4, 5, 6, 7, 8, 9, 10], [7]]
      = Inr [[1, 255, 255, 255, 255, 255, 255, 255, 254, 10], [7]]"
    by code_simp
  show ?thesis
    using run setValue_frame [OF run] by simp
qed

text \<open>
  C10. Constructing from a string never raises, whatever the string: the result is an
  object over a new Buffer of eight bytes. When the high part of the string (what is
  left of it before its last 8 characters, after a leading \<open>0x\<close> is removed) does not
  parse, the bytes at indices 0 to 3 are zero, and when the low part (its last 8
  characters) does not parse, the bytes at indices 4 to 7 are zero.
\<close>

theorem string_construction_total:
  "\<exists>bytes. Int64 (Value (AString s)) mem h
       = Inr (\<lparr>buffer = length h, offset = 0\<rparr>, h @ [bytes])
     \<and> length bytes = 8
     \<and> (parseInt16 (if length (replace_0x s) > 8
           then take (length (replace_0x s) - 8) (replace_0x s) else '''') = NaN
         \<longrightarrow> take 4 bytes = [0, 0, 0, 0])
     \<and> (parseInt16 (substr_last8 (replace_0x s)) = NaN \<longrightarrow> drop 4 bytes = [0, 0, 0, 0])"
proof -
  let ?hi = "parseInt16 (if length (replace_0x s) > 8
      then take (length (replace_0x s) - 8) (replace_0x s) else '''')"
  let ?lo = "parseInt16 (substr_last8 (replace_0x s))"
  let ?bytes = "copy_bytes 0 ?hi ?lo (new_Buffer mem 8)"
  have "decode_args (AString s) = Inr (False, ?hi, ?lo)"
    by (simp add: Let_def)
  then have "Int64 (Value (AString s)) mem h
      = Inr (\<lparr>buffer = length h, offset = 0\<rparr>, h @ [?bytes])"
    by (simp only: Int64_Value if_False)
  moreover have "length ?bytes = 8"
    by (simp only: copy_bytes_new) simp
  moreover have "take 4 ?bytes = [0, 0, 0, 0]" if "?hi = NaN"
    by (simp only: copy_bytes_new that) simp
  moreover have "drop 4 ?bytes = [0, 0, 0, 0]" if "?lo = NaN"
    by (simp only: copy_bytes_new that) simp
  ultimately show ?thesis
    by blast
qed

theorem string_construction_total_witness:
  "Int64 (Value (AString ''not a number!'')) zeroed []
     = Inr (\<lparr>buffer = 0, offset = 0\<rparr>, [[0, 0, 0, 0, 0, 0, 0, 0]])"
proof -
  let ?s = "''not a number!''"
  obtain bytes where made: "Int64 (Value (AString ?s)) zeroed []
        = Inr (\<lparr>buffer = length ([] :: heap), offset = 0\<rparr>, [] @ [bytes])"
    and hi: "parseInt16 (if length (replace_0x ?s) > 8
           then take (length (replace_0x ?s) - 8) (replace_0x ?s) else '''') = NaN
         \<longrightarrow> take 4 bytes = [0, 0, 0, 0]"
    and lo: "parseInt16 (substr_last8 (replace_0x ?s)) = NaN \<longrightarrow> drop 4 bytes = [0, 0, 0, 0]"
    using string_construction_total [of ?s zeroed "[]"] by blast
  have "parseInt16 (if length (replace_0x ?s) > 8
      then take (length (replace_0x ?s) - 8) (replace_0x ?s) else '''') = NaN"
    by code_simp
  then have front: "take 4 bytes = [0, 0, 0, 0]"
    using hi by blast
  have "parseInt16 (substr_last8 (replace_0x ?s)) = NaN"
    by code_simp
  then have rear: "drop 4 bytes = [0, 0, 0, 0]"
    using lo by blast
  have "bytes = take 4 bytes @ drop 4 bytes"
    by simp
  then have "bytes = [0, 0, 0, 0, 0, 0, 0, 0]"
    by (simp only: front rear) simp
  then show ?thesis
    using made by simp
qed

end
